theory Spec2Isabelle
  imports Complex_Main
begin

section \<open>The event responder system of react-dom (DOMEventResponderSystem.js)\<close>

text \<open>
  The module keeps its state in module-level variables and in the objects they point
  to. The model keeps both in one record, \<open>engine\<close>: the module variables under
  their own names, and the objects that are shared by reference (event component
  instances, responders, timeout groups) in stores indexed by a reference.
  Every function of the module becomes a function from an engine to a result and the
  engine it leaves behind; an exception is the result \<open>Inl\<close>, and the engine is
  returned with it, because nothing a function wrote before it threw is rolled back.
\<close>

subsection \<open>Data\<close>

type_synonym inst_ref = nat
type_synonym resp_ref = nat
type_synonym timeout_ref = nat
type_synonym symbol = nat
type_synonym TimeoutID = nat
type_synonym listener = nat

text \<open>\<open>ReactEventResponderEventType\<close>: a string, or an object with a name.\<close>

datatype ReactEventResponderEventType =
    EventTypeString string
  | EventTypeObject string

fun topLevelEventTypeOf :: "ReactEventResponderEventType \<Rightarrow> string" where
  "topLevelEventTypeOf (EventTypeString s) = s"
| "topLevelEventTypeOf (EventTypeObject n) = n"

text \<open>
  The fiber tree is the reconciler's. A fiber is reached together with its chain of
  \<open>return\<close> pointers, which is finite; the fibers hanging below it
  (\<open>child\<close>, then \<open>sibling\<close>) are the list \<open>children\<close>, and the
  \<open>return\<close> pointer of each of them is the fiber itself. The work tag of a fiber
  comes with the state node that the tag promises: an event component fiber has an
  event component instance as its state node, a host component fiber an element.
\<close>

datatype fiber_node =
    EventComponent inst_ref
  | EventTargetWorkTag
  | HostComponent nat
  | OtherWorkTag

record child_fiber =
  child_is_event_target :: bool
  child_type :: nat
  child_key :: "string option"
  child_props :: nat

datatype fiber =
  Fiber (fiber_id: nat) (node: fiber_node) (children: "child_fiber list") (return: "fiber option")

text \<open>
  A DOM node, as far as the module looks at it: the fiber that
  \<open>getClosestInstanceFromNode\<close> finds for it, and the bounding rectangle of its
  parent node (left, top, right, bottom).
\<close>

record dom_node =
  closestInstance :: "fiber option"
  parentRect :: "real \<times> real \<times> real \<times> real"

text \<open>A document: \<open>elementFromPoint\<close> is missing in some environments.\<close>

type_synonym document = "(real \<Rightarrow> real \<Rightarrow> dom_node option) option"

record event_object =
  ev_ref :: nat
  ev_target :: "nat option"
  ev_type :: "string option"

text \<open>
  A responder's callbacks are code of the responder module. What the engine sees of a
  callback is the sequence of calls it makes on the responder context, so a callback is
  modelled as that sequence; \<open>Throw\<close> is an exception of the callback's own.
  A timer token that a callback passes to \<open>clearTimeout\<close> is written as the token.
\<close>

datatype responder_call =
    DispatchEvent event_object listener bool
  | IsPositionWithinTouchHitTarget document real real
  | IsTargetWithinEventComponent "dom_node option"
  | IsTargetWithinElement dom_node dom_node
  | AddRootEventTypes document "ReactEventResponderEventType list"
  | RemoveRootEventTypes "ReactEventResponderEventType list"
  | HasOwnership
  | RequestOwnership
  | ReleaseOwnership
  | SetTimeout "responder_call list" int
  | ClearTimeout symbol
  | GetEventTargetsFromTarget dom_node "nat option" "string option"
  | Throw nat

type_synonym callback = "responder_call list"

record ReactEventResponder =
  targetEventTypes :: "ReactEventResponderEventType list"
  stopLocalPropagation :: bool
  onEventCapture :: "callback option"
  onEvent :: "callback option"
  onRootEvent :: "callback option"
  onOwnershipChange :: "callback option"
  onUnmount :: "callback option"

text \<open>
  A JavaScript \<open>Set\<close> iterates in insertion order: it is a list without
  repetitions. \<open>rootEventTypes\<close> of an instance is \<open>null\<close> until the first
  registration.
\<close>

record ReactEventComponentInstance =
  responder :: resp_ref
  rootEventTypes :: "string list option"

record ResponderTimer =
  timer_instance :: inst_ref
  timer_func :: callback
  timer_id :: symbol

record ResponderTimeout =
  timeout_id :: TimeoutID
  timers :: "(symbol \<times> ResponderTimer) list"

record EventQueue =
  events :: "event_object list"
  discrete :: bool

datatype error =
    OutsideEventCycle
  | DuplicateRootEventType ReactEventResponderEventType
  | MissingTargetOrType
  | TypeError
  | CallStackExceeded
  | Thrown nat

datatype callback_kind =
    OnEventCapture
  | OnEvent
  | OnRootEvent
  | OnOwnershipChange
  | OnUnmount
  | TimerFunc

text \<open>
  What the engine does to the outside is recorded in \<open>effects\<close>: each callback it
  invokes (with the instance it made current and the owner at that moment), each call
  of the listening implementation, each timer it asks the host for or cancels there, and
  each batch it hands to the scheduler.
\<close>

datatype effect =
    Invoked callback_kind inst_ref "inst_ref option"
  | ListenToResponderEventTypes "ReactEventResponderEventType list"
  | HostSetTimeout TimeoutID int timeout_ref
  | HostClearTimeout TimeoutID
  | BatchedUpdates bool "(event_object \<times> listener option) list"

record engine =
  instanceObjects :: "inst_ref \<Rightarrow> ReactEventComponentInstance"
  responderObjects :: "resp_ref \<Rightarrow> ReactEventResponder"
  timeoutObjects :: "timeout_ref \<Rightarrow> ResponderTimeout"
  activeTimeouts :: "symbol \<rightharpoonup> timeout_ref"
  rootEventTypesToEventComponentInstances :: "string \<rightharpoonup> inst_ref list"
  targetEventTypeCached :: "ReactEventResponderEventType list \<rightharpoonup> string list"
  ownershipChangeListeners :: "inst_ref list"
  eventListeners :: "nat \<rightharpoonup> listener"
  currentTimers :: "(int \<rightharpoonup> timeout_ref) option"
  currentOwner :: "inst_ref option"
  currentInstance :: "inst_ref option"
  currentEventQueue :: "EventQueue option"
  nextTimeoutID :: TimeoutID
  nextTimeoutRef :: timeout_ref
  nextSymbol :: symbol
  effects :: "effect list"

type_synonym 'a action = "engine \<Rightarrow> (error + 'a) \<times> engine"

definition andThen :: "'a action \<Rightarrow> ('a \<Rightarrow> 'b action) \<Rightarrow> 'b action" where
  "andThen m f s = (case m s of (Inl e, s') \<Rightarrow> (Inl e, s') | (Inr v, s') \<Rightarrow> f v s')"

definition tryFinally :: "'a action \<Rightarrow> (engine \<Rightarrow> engine) \<Rightarrow> 'a action" where
  "tryFinally m cleanup s = (case m s of (r, s') \<Rightarrow> (r, cleanup s'))"

definition setAdd :: "'a \<Rightarrow> 'a list \<Rightarrow> 'a list" where
  "setAdd x xs = (if x \<in> set xs then xs else xs @ [x])"

definition setDelete :: "'a \<Rightarrow> 'a list \<Rightarrow> 'a list" where
  "setDelete x xs = removeAll x xs"

fun mapSet :: "'k \<Rightarrow> 'v \<Rightarrow> ('k \<times> 'v) list \<Rightarrow> ('k \<times> 'v) list" where
  "mapSet k v [] = [(k, v)]"
| "mapSet k v ((k', v') # kvs) = (if k' = k then (k, v) # kvs else (k', v') # mapSet k v kvs)"

definition mapDelete :: "'k \<Rightarrow> ('k \<times> 'v) list \<Rightarrow> ('k \<times> 'v) list" where
  "mapDelete k kvs = filter (\<lambda>kv. fst kv \<noteq> k) kvs"

subsection \<open>The responder context\<close>

definition validateResponderContext :: "unit action" where
  "validateResponderContext s =
     (if currentEventQueue s \<noteq> None \<and> currentInstance s \<noteq> None then (Inr (), s)
      else (Inl OutsideEventCycle, s))"

definition dispatchEvent :: "event_object \<Rightarrow> listener \<Rightarrow> bool \<Rightarrow> unit action" where
  "dispatchEvent possibleEventObject lst isDiscrete =
     andThen validateResponderContext (\<lambda>_ s.
       if ev_target possibleEventObject = None \<or> ev_type possibleEventObject = None
       then (Inl MissingTargetOrType, s)
       else (case currentEventQueue s of
               None \<Rightarrow> (Inl TypeError, s)
             | Some eventQueue \<Rightarrow>
                 let q1 = (if isDiscrete then eventQueue\<lparr>discrete := True\<rparr> else eventQueue);
                     s1 = s\<lparr>eventListeners :=
                            (eventListeners s)(ev_ref possibleEventObject \<mapsto> lst)\<rparr>
                 in (Inr (),
                     s1\<lparr>currentEventQueue :=
                          Some (q1\<lparr>events := events q1 @ [possibleEventObject]\<rparr>)\<rparr>)))"

definition isPositionWithinTouchHitTarget :: "document \<Rightarrow> real \<Rightarrow> real \<Rightarrow> bool action" where
  "isPositionWithinTouchHitTarget doc x y =
     andThen validateResponderContext (\<lambda>_ s.
       case doc of
         None \<Rightarrow> (Inr False, s)
       | Some elementFromPoint \<Rightarrow>
           (case elementFromPoint x y of
              None \<Rightarrow> (Inr False, s)
            | Some target \<Rightarrow>
                (case closestInstance target of
                   None \<Rightarrow> (Inr False, s)
                 | Some childFiber \<Rightarrow>
                     (case return childFiber of
                        None \<Rightarrow> (Inr False, s)
                      | Some parentFiber \<Rightarrow>
                          if node parentFiber = EventTargetWorkTag
                          then (case parentRect target of
                                  (rleft, rtop, rright, rbottom) \<Rightarrow>
                                    if x > rleft \<and> y > rtop \<and> x < rright \<and> y < rbottom
                                    then (Inr False, s) else (Inr True, s))
                          else (Inr False, s)))))"

text \<open>\<open>fiber.stateNode === currentInstance\<close>\<close>

fun stateNodeIs :: "fiber_node \<Rightarrow> inst_ref option \<Rightarrow> bool" where
  "stateNodeIs (EventComponent i) cur = (cur = Some i)"
| "stateNodeIs _ cur = False"

fun withinEventComponent :: "inst_ref option \<Rightarrow> fiber \<Rightarrow> bool" where
  "withinEventComponent cur (Fiber fid n cs r) =
     (if stateNodeIs n cur then True
      else (case r of None \<Rightarrow> False | Some p \<Rightarrow> withinEventComponent cur p))"

definition isTargetWithinEventComponent :: "dom_node option \<Rightarrow> bool action" where
  "isTargetWithinEventComponent target =
     andThen validateResponderContext (\<lambda>_ s.
       case target of
         None \<Rightarrow> (Inr False, s)
       | Some t \<Rightarrow>
           (case closestInstance t of
              None \<Rightarrow> (Inr False, s)
            | Some f \<Rightarrow> (Inr (withinEventComponent (currentInstance s) f), s)))"

text \<open>
  \<open>node === parentFiber\<close> compares two fiber objects; \<open>fiber_id\<close> is the
  identity of a fiber.
\<close>

fun withinFiber :: "fiber option \<Rightarrow> fiber \<Rightarrow> bool" where
  "withinFiber parentFiber (Fiber fid n cs r) =
     (if map_option fiber_id parentFiber = Some fid then True
      else (case r of None \<Rightarrow> False | Some p \<Rightarrow> withinFiber parentFiber p))"

definition isTargetWithinElement :: "dom_node \<Rightarrow> dom_node \<Rightarrow> bool action" where
  "isTargetWithinElement childTarget parentTarget s =
     (let childFiber = closestInstance childTarget;
          parentFiber = closestInstance parentTarget
      in case childFiber of
           None \<Rightarrow> (Inr False, s)
         | Some f \<Rightarrow> (Inr (withinFiber parentFiber f), s))"

definition setRootEventTypes :: "inst_ref \<Rightarrow> string list \<Rightarrow> engine \<Rightarrow> engine" where
  "setRootEventTypes i ts s =
     s\<lparr>instanceObjects :=
         (instanceObjects s)(i := (instanceObjects s i)\<lparr>rootEventTypes := Some ts\<rparr>)\<rparr>"

definition ensureRootEventComponentInstances :: "string \<Rightarrow> engine \<Rightarrow> engine" where
  "ensureRootEventComponentInstances topLevelEventType s =
     (case rootEventTypesToEventComponentInstances s topLevelEventType of
        None \<Rightarrow> s\<lparr>rootEventTypesToEventComponentInstances :=
                     (rootEventTypesToEventComponentInstances s)(topLevelEventType \<mapsto> [])\<rparr>
      | Some _ \<Rightarrow> s)"

text \<open>
  \<open>rootEventTypesSet\<close> of the source: the set of the instance, or a new, empty set
  that becomes the set of the instance.
\<close>

definition rootEventTypesSetOf :: "inst_ref \<Rightarrow> engine \<Rightarrow> string list" where
  "rootEventTypesSetOf i s =
     (case rootEventTypes (instanceObjects s i) of
        None \<Rightarrow> []
      | Some rootEventTypesSet \<Rightarrow> rootEventTypesSet)"

definition addToRootEventComponentInstances :: "string \<Rightarrow> inst_ref \<Rightarrow> engine \<Rightarrow> engine" where
  "addToRootEventComponentInstances topLevelEventType i s =
     s\<lparr>rootEventTypesToEventComponentInstances :=
         (rootEventTypesToEventComponentInstances s)
           (topLevelEventType \<mapsto>
              setAdd i (case rootEventTypesToEventComponentInstances s topLevelEventType of
                          None \<Rightarrow> []
                        | Some rootEventComponentInstances \<Rightarrow> rootEventComponentInstances))\<rparr>"

definition deleteFromRootEventComponentInstances :: "string \<Rightarrow> inst_ref \<Rightarrow> engine \<Rightarrow> engine" where
  "deleteFromRootEventComponentInstances topLevelEventType i s =
     (case rootEventTypesToEventComponentInstances s topLevelEventType of
        None \<Rightarrow> s
      | Some rootEventComponentInstances \<Rightarrow>
          s\<lparr>rootEventTypesToEventComponentInstances :=
              (rootEventTypesToEventComponentInstances s)
                (topLevelEventType \<mapsto> setDelete i rootEventComponentInstances)\<rparr>)"

fun addRootEventTypesLoop :: "ReactEventResponderEventType list \<Rightarrow> unit action" where
  "addRootEventTypesLoop [] s = (Inr (), s)"
| "addRootEventTypesLoop (rootEventType # rest) s =
     (let topLevelEventType = topLevelEventTypeOf rootEventType;
          s1 = ensureRootEventComponentInstances topLevelEventType s
      in case currentInstance s1 of
           None \<Rightarrow> (Inl TypeError, s1)
         | Some componentInstance \<Rightarrow>
             (let rootEventTypesSet = rootEventTypesSetOf componentInstance s1
              in if topLevelEventType \<in> set rootEventTypesSet
                 then (Inl (DuplicateRootEventType rootEventType), s1)
                 else addRootEventTypesLoop rest
                        (addToRootEventComponentInstances topLevelEventType componentInstance
                           (setRootEventTypes componentInstance
                              (setAdd topLevelEventType rootEventTypesSet) s1))))"

definition addRootEventTypes :: "document \<Rightarrow> ReactEventResponderEventType list \<Rightarrow> unit action" where
  "addRootEventTypes doc types =
     andThen validateResponderContext (\<lambda>_ s.
       addRootEventTypesLoop types
         (s\<lparr>effects := effects s @ [ListenToResponderEventTypes types]\<rparr>))"

fun removeRootEventTypesLoop :: "ReactEventResponderEventType list \<Rightarrow> unit action" where
  "removeRootEventTypesLoop [] s = (Inr (), s)"
| "removeRootEventTypesLoop (rootEventType # rest) s =
     (let topLevelEventType = topLevelEventTypeOf rootEventType
      in case currentInstance s of
           None \<Rightarrow> (Inl TypeError, s)
         | Some i \<Rightarrow>
             (let s1 = (case rootEventTypes (instanceObjects s i) of
                          None \<Rightarrow> s
                        | Some rootEventTypesSet \<Rightarrow>
                            setRootEventTypes i (setDelete topLevelEventType rootEventTypesSet) s)
              in removeRootEventTypesLoop rest
                   (deleteFromRootEventComponentInstances topLevelEventType i s1)))"

definition removeRootEventTypes :: "ReactEventResponderEventType list \<Rightarrow> unit action" where
  "removeRootEventTypes types =
     andThen validateResponderContext (\<lambda>_. removeRootEventTypesLoop types)"

definition hasOwnership :: "bool action" where
  "hasOwnership =
     andThen validateResponderContext (\<lambda>_ s. (Inr (currentOwner s = currentInstance s), s))"

text \<open>
  How a callback is run is a parameter of every function that invokes one: the
  functions below are closed over it by \<open>invoke\<close>, which bounds the depth of
  callbacks invoked from within callbacks as the call stack does.
\<close>

type_synonym runner = "callback \<Rightarrow> unit action"

definition invokeCallback :: "runner \<Rightarrow> callback_kind \<Rightarrow> inst_ref \<Rightarrow> callback \<Rightarrow> unit action" where
  "invokeCallback run kind i cb s =
     run cb (s\<lparr>effects := effects s @ [Invoked kind i (currentOwner s)]\<rparr>)"

fun triggerOwnershipListenersLoop :: "runner \<Rightarrow> inst_ref list \<Rightarrow> unit action" where
  "triggerOwnershipListenersLoop run [] s = (Inr (), s)"
| "triggerOwnershipListenersLoop run (i # rest) s =
     (let s1 = s\<lparr>currentInstance := Some i\<rparr>
      in case onOwnershipChange (responderObjects s (responder (instanceObjects s i))) of
           None \<Rightarrow> (Inl TypeError, s1)
         | Some cb \<Rightarrow>
             andThen (invokeCallback run OnOwnershipChange i cb)
               (\<lambda>_. triggerOwnershipListenersLoop run rest) s1)"

definition triggerOwnershipListeners :: "runner \<Rightarrow> unit action" where
  "triggerOwnershipListeners run s =
     (let listeningInstances = ownershipChangeListeners s;
          previousInstance = currentInstance s
      in tryFinally (triggerOwnershipListenersLoop run listeningInstances)
           (\<lambda>s'. s'\<lparr>currentInstance := previousInstance\<rparr>) s)"

definition requestOwnership :: "runner \<Rightarrow> bool action" where
  "requestOwnership run =
     andThen validateResponderContext (\<lambda>_ s.
       if currentOwner s \<noteq> None then (Inr False, s)
       else andThen (triggerOwnershipListeners run) (\<lambda>_ s'. (Inr True, s'))
              (s\<lparr>currentOwner := currentInstance s\<rparr>))"

definition releaseOwnership :: "runner \<Rightarrow> bool action" where
  "releaseOwnership run =
     andThen validateResponderContext (\<lambda>_ s.
       if currentOwner s \<noteq> currentInstance s then (Inr False, s)
       else andThen (triggerOwnershipListeners run) (\<lambda>_ s'. (Inr False, s'))
              (s\<lparr>currentOwner := None\<rparr>))"

text \<open>
  The host's \<open>setTimeout\<close> hands out a fresh id for a timer whose closure will
  process the group \<open>r\<close>; both calls to the host are recorded.
\<close>

definition hostSetTimeout :: "timeout_ref \<Rightarrow> int \<Rightarrow> engine \<Rightarrow> TimeoutID \<times> engine" where
  "hostSetTimeout r delay s =
     (nextTimeoutID s,
      s\<lparr>effects := effects s @ [HostSetTimeout (nextTimeoutID s) delay r],
        nextTimeoutID := Suc (nextTimeoutID s)\<rparr>)"

definition hostClearTimeout :: "TimeoutID \<Rightarrow> engine \<Rightarrow> engine" where
  "hostClearTimeout tid s = s\<lparr>effects := effects s @ [HostClearTimeout tid]\<rparr>"

definition setTimeout :: "callback \<Rightarrow> int \<Rightarrow> symbol action" where
  "setTimeout func delay =
     andThen validateResponderContext (\<lambda>_ s.
       case currentInstance s of
         None \<Rightarrow> (Inl TypeError, s)
       | Some i \<Rightarrow>
          (let timersByDelay = (case currentTimers s of None \<Rightarrow> Map.empty | Some m \<Rightarrow> m);
               s1 = s\<lparr>currentTimers := Some timersByDelay\<rparr>;
               timerId = nextSymbol s1;
               s2 = s1\<lparr>nextSymbol := Suc (nextSymbol s1)\<rparr>;
               (r, s3) =
                 (case timersByDelay delay of
                    Some r \<Rightarrow> (r, s2)
                  | None \<Rightarrow>
                      (let r = nextTimeoutRef s2;
                           (tid, s2a) = hostSetTimeout r delay
                                          (s2\<lparr>nextTimeoutRef := Suc (nextTimeoutRef s2)\<rparr>);
                           s2b = s2a\<lparr>timeoutObjects :=
                                       (timeoutObjects s2a)
                                         (r := \<lparr>timeout_id = tid, timers = []\<rparr>)\<rparr>
                       in (r, s2b\<lparr>currentTimers := Some (timersByDelay(delay \<mapsto> r))\<rparr>)));
               timeout = timeoutObjects s3 r;
               s4 = s3\<lparr>timeoutObjects :=
                         (timeoutObjects s3)
                           (r := timeout\<lparr>timers :=
                                   mapSet timerId
                                     \<lparr>timer_instance = i, timer_func = func, timer_id = timerId\<rparr>
                                     (timers timeout)\<rparr>)\<rparr>
           in (Inr timerId, s4\<lparr>activeTimeouts := (activeTimeouts s4)(timerId \<mapsto> r)\<rparr>)))"

definition clearTimeout :: "symbol \<Rightarrow> unit action" where
  "clearTimeout timerId =
     andThen validateResponderContext (\<lambda>_ s.
       case activeTimeouts s timerId of
         None \<Rightarrow> (Inr (), s)
       | Some r \<Rightarrow>
          (let timeout = timeoutObjects s r;
               timers' = mapDelete timerId (timers timeout);
               s1 = s\<lparr>timeoutObjects := (timeoutObjects s)(r := timeout\<lparr>timers := timers'\<rparr>)\<rparr>
           in if timers' = [] then (Inr (), hostClearTimeout (timeout_id timeout) s1)
              else (Inr (), s1)))"

definition queryEventTarget :: "child_fiber \<Rightarrow> nat option \<Rightarrow> string option \<Rightarrow> bool" where
  "queryEventTarget child queryType queryKey =
     (if queryType \<noteq> None \<and> Some (child_type child) \<noteq> queryType then False
      else if queryKey \<noteq> None \<and> child_key child \<noteq> queryKey then False
      else True)"

fun eventTargetsFrom ::
  "inst_ref option \<Rightarrow> nat option \<Rightarrow> string option \<Rightarrow> fiber \<Rightarrow> (nat \<times> nat) list" where
  "eventTargetsFrom cur queryType queryKey (Fiber fid n cs r) =
     (if stateNodeIs n cur then []
      else (case find (\<lambda>c. child_is_event_target c \<and> queryEventTarget c queryType queryKey) cs of
              None \<Rightarrow> []
            | Some c \<Rightarrow>
                if stateNodeIs n cur then []
                else (case n of HostComponent h \<Rightarrow> [(h, child_props c)] | _ \<Rightarrow> []))
           @ (case r of None \<Rightarrow> [] | Some p \<Rightarrow> eventTargetsFrom cur queryType queryKey p))"

definition getEventTargetsFromTarget ::
  "dom_node \<Rightarrow> nat option \<Rightarrow> string option \<Rightarrow> (nat \<times> nat) list action" where
  "getEventTargetsFromTarget target queryType queryKey =
     andThen validateResponderContext (\<lambda>_ s.
       case closestInstance target of
         None \<Rightarrow> (Inr [], s)
       | Some f \<Rightarrow> (Inr (eventTargetsFrom (currentInstance s) queryType queryKey f), s))"

subsection \<open>Running a callback\<close>

definition discardResult :: "'a action \<Rightarrow> unit action" where
  "discardResult m = andThen m (\<lambda>_ s. (Inr (), s))"

fun contextCall :: "runner \<Rightarrow> responder_call \<Rightarrow> unit action" where
  "contextCall run (DispatchEvent ev lst d) = dispatchEvent ev lst d"
| "contextCall run (IsPositionWithinTouchHitTarget doc x y) =
     discardResult (isPositionWithinTouchHitTarget doc x y)"
| "contextCall run (IsTargetWithinEventComponent t) =
     discardResult (isTargetWithinEventComponent t)"
| "contextCall run (IsTargetWithinElement c p) = discardResult (isTargetWithinElement c p)"
| "contextCall run (AddRootEventTypes doc types) = addRootEventTypes doc types"
| "contextCall run (RemoveRootEventTypes types) = removeRootEventTypes types"
| "contextCall run HasOwnership = discardResult hasOwnership"
| "contextCall run RequestOwnership = discardResult (requestOwnership run)"
| "contextCall run ReleaseOwnership = discardResult (releaseOwnership run)"
| "contextCall run (SetTimeout func delay) = discardResult (setTimeout func delay)"
| "contextCall run (ClearTimeout timerId) = clearTimeout timerId"
| "contextCall run (GetEventTargetsFromTarget t queryType queryKey) =
     discardResult (getEventTargetsFromTarget t queryType queryKey)"
| "contextCall run (Throw n) = (\<lambda>s. (Inl (Thrown n), s))"

fun callbackBody :: "runner \<Rightarrow> callback \<Rightarrow> unit action" where
  "callbackBody run [] s = (Inr (), s)"
| "callbackBody run (c # cs) s =
     (case contextCall run c s of
        (Inl e, s') \<Rightarrow> (Inl e, s')
      | (Inr _, s') \<Rightarrow> callbackBody run cs s')"

primrec invoke :: "nat \<Rightarrow> runner" where
  "invoke 0 = (\<lambda>cb s. (Inl CallStackExceeded, s))"
| "invoke (Suc depth) = callbackBody (invoke depth)"

subsection \<open>The event queue\<close>

definition createEventQueue :: EventQueue where
  "createEventQueue = \<lparr>events = [], discrete = False\<rparr>"

text \<open>
  The batch goes to the scheduler (\<open>interactiveUpdates\<close> around
  \<open>batchedUpdates\<close> when the queue is discrete), which calls each event's listener
  under the guard that catches what the listener throws. Scheduler, guard and listeners
  are outside the module: the batch is recorded, with the listener found for each event.
\<close>

definition processEventQueue :: "unit action" where
  "processEventQueue s =
     (case currentEventQueue s of
        None \<Rightarrow> (Inl TypeError, s)
      | Some q \<Rightarrow>
          if events q = [] then (Inr (), s)
          else (Inr (),
                s\<lparr>effects := effects s @
                     [BatchedUpdates (discrete q)
                        (map (\<lambda>ev. (ev, eventListeners s (ev_ref ev))) (events q))]\<rparr>))"

subsection \<open>Finding the instances of an event\<close>

text \<open>
  The cache of \<open>getTargetEventTypes\<close> is keyed by the array of event types of a
  responder; the arrays are not written to, and the model keys the cache by their
  contents.
\<close>

definition getTargetEventTypes ::
  "ReactEventResponderEventType list \<Rightarrow> engine \<Rightarrow> string list \<times> engine" where
  "getTargetEventTypes eventTypes s =
     (case targetEventTypeCached s eventTypes of
        Some cachedSet \<Rightarrow> (cachedSet, s)
      | None \<Rightarrow>
          (let cachedSet = foldl (\<lambda>acc eventType. setAdd (topLevelEventTypeOf eventType) acc)
                             [] eventTypes
           in (cachedSet,
               s\<lparr>targetEventTypeCached := (targetEventTypeCached s)(eventTypes \<mapsto> cachedSet)\<rparr>)))"

fun getTargetEventResponderInstancesLoop ::
  "string \<Rightarrow> fiber \<Rightarrow> inst_ref list \<Rightarrow> engine \<Rightarrow> inst_ref list \<times> engine" where
  "getTargetEventResponderInstancesLoop topLevelType (Fiber fid n cs r) eventResponderInstances s =
     (case (case n of
              EventComponent eventComponentInstance \<Rightarrow>
                if currentOwner s = None \<or> currentOwner s = Some eventComponentInstance
                then (case getTargetEventTypes
                             (targetEventTypes
                                (responderObjects s
                                   (responder (instanceObjects s eventComponentInstance)))) s of
                        (targetEventTypesSet, s') \<Rightarrow>
                          if topLevelType \<in> set targetEventTypesSet
                          then (eventResponderInstances @ [eventComponentInstance], s')
                          else (eventResponderInstances, s'))
                else (eventResponderInstances, s)
            | _ \<Rightarrow> (eventResponderInstances, s)) of
        (eventResponderInstances', s') \<Rightarrow>
          (case r of
             None \<Rightarrow> (eventResponderInstances', s')
           | Some p \<Rightarrow> getTargetEventResponderInstancesLoop topLevelType p eventResponderInstances' s'))"

definition getTargetEventResponderInstances ::
  "string \<Rightarrow> fiber option \<Rightarrow> engine \<Rightarrow> inst_ref list \<times> engine" where
  "getTargetEventResponderInstances topLevelType targetFiber s =
     (case targetFiber of
        None \<Rightarrow> ([], s)
      | Some f \<Rightarrow> getTargetEventResponderInstancesLoop topLevelType f [] s)"

definition getRootEventResponderInstances :: "string \<Rightarrow> engine \<Rightarrow> inst_ref list" where
  "getRootEventResponderInstances topLevelType s =
     (case rootEventTypesToEventComponentInstances s topLevelType of
        None \<Rightarrow> []
      | Some rootEventInstances \<Rightarrow>
          filter (\<lambda>rootEventComponentInstance.
                    currentOwner s = None \<or> currentOwner s = Some rootEventComponentInstance)
            rootEventInstances)"

subsection \<open>The three phases\<close>

text \<open>
  The capture loop and the bubble loop have the same body and differ in the listener
  they take from the responder and in the direction they run through the instances;
  \<open>targetPhaseLoop\<close> is that body, over the instances in the order of the loop.
\<close>

fun targetPhaseLoop ::
  "runner \<Rightarrow> callback_kind \<Rightarrow> (ReactEventResponder \<Rightarrow> callback option) \<Rightarrow> resp_ref list \<Rightarrow>
   inst_ref list \<Rightarrow> unit action" where
  "targetPhaseLoop run kind eventListenerOf propagatedEventResponders [] s = (Inr (), s)"
| "targetPhaseLoop run kind eventListenerOf propagatedEventResponders
     (targetEventResponderInstance # rest) s =
     (let r = responder (instanceObjects s targetEventResponderInstance);
          rd = responderObjects s r
      in if stopLocalPropagation rd \<and> r \<in> set propagatedEventResponders
         then targetPhaseLoop run kind eventListenerOf propagatedEventResponders rest s
         else (let propagated' = (if stopLocalPropagation rd
                                  then setAdd r propagatedEventResponders
                                  else propagatedEventResponders)
               in case eventListenerOf rd of
                    None \<Rightarrow> targetPhaseLoop run kind eventListenerOf propagated' rest s
                  | Some eventListener \<Rightarrow>
                      andThen (invokeCallback run kind targetEventResponderInstance eventListener)
                        (\<lambda>_. targetPhaseLoop run kind eventListenerOf propagated' rest)
                        (s\<lparr>currentInstance := Some targetEventResponderInstance\<rparr>)))"

fun rootPhaseLoop :: "runner \<Rightarrow> inst_ref list \<Rightarrow> unit action" where
  "rootPhaseLoop run [] s = (Inr (), s)"
| "rootPhaseLoop run (rootEventResponderInstance # rest) s =
     (case onRootEvent (responderObjects s (responder (instanceObjects s rootEventResponderInstance))) of
        None \<Rightarrow> rootPhaseLoop run rest s
      | Some eventListener \<Rightarrow>
          andThen (invokeCallback run OnRootEvent rootEventResponderInstance eventListener)
            (\<lambda>_. rootPhaseLoop run rest)
            (s\<lparr>currentInstance := Some rootEventResponderInstance\<rparr>))"

definition traverseAndHandleEventResponderInstances ::
  "runner \<Rightarrow> string \<Rightarrow> fiber option \<Rightarrow> unit action" where
  "traverseAndHandleEventResponderInstances run topLevelType targetFiber s =
     (case getTargetEventResponderInstances topLevelType targetFiber s of
        (targetEventResponderInstances, s0) \<Rightarrow>
          andThen (targetPhaseLoop run OnEventCapture onEventCapture []
                     (rev targetEventResponderInstances))
            (\<lambda>_. andThen (targetPhaseLoop run OnEvent onEvent [] targetEventResponderInstances)
                    (\<lambda>_ s2. rootPhaseLoop run (getRootEventResponderInstances topLevelType s2) s2))
            s0)"

definition endCycle :: "engine \<Rightarrow> engine" where
  "endCycle s = s\<lparr>currentTimers := None, currentInstance := None, currentEventQueue := None\<rparr>"

text \<open>\<open>enableEventAPI\<close> is a feature flag of another module: it is a parameter.\<close>

definition dispatchEventForResponderEventSystem ::
  "bool \<Rightarrow> nat \<Rightarrow> string \<Rightarrow> fiber option \<Rightarrow> unit action" where
  "dispatchEventForResponderEventSystem enableEventAPI depth topLevelType targetFiber s =
     (if enableEventAPI
      then tryFinally
             (andThen (traverseAndHandleEventResponderInstances (invoke depth) topLevelType targetFiber)
                (\<lambda>_. processEventQueue))
             endCycle
             (s\<lparr>currentEventQueue := Some createEventQueue\<rparr>)
      else (Inr (), s))"

subsection \<open>Timers\<close>

fun processTimersLoop :: "runner \<Rightarrow> ResponderTimer list \<Rightarrow> unit action" where
  "processTimersLoop run [] s = (Inr (), s)"
| "processTimersLoop run (t # rest) s =
     andThen
       (tryFinally (invokeCallback run TimerFunc (timer_instance t) (timer_func t))
          (\<lambda>s'. s'\<lparr>activeTimeouts := (activeTimeouts s')(timer_id t := None)\<rparr>))
       (\<lambda>_. processTimersLoop run rest)
       (s\<lparr>currentInstance := Some (timer_instance t)\<rparr>)"

text \<open>
  The host calls \<open>processTimers\<close> with the map of timers that the closure given to
  its \<open>setTimeout\<close> holds: the map of the timeout group \<open>r\<close>.
\<close>

definition processTimers :: "nat \<Rightarrow> timeout_ref \<Rightarrow> unit action" where
  "processTimers depth r s =
     (let timersArr = map snd (timers (timeoutObjects s r))
      in tryFinally
           (andThen (processTimersLoop (invoke depth) timersArr) (\<lambda>_. processEventQueue))
           endCycle
           (s\<lparr>currentEventQueue := Some createEventQueue\<rparr>))"

subsection \<open>Mounting and unmounting\<close>

definition mountEventResponder :: "inst_ref \<Rightarrow> engine \<Rightarrow> engine" where
  "mountEventResponder eventComponentInstance s =
     (if onOwnershipChange
           (responderObjects s (responder (instanceObjects s eventComponentInstance))) \<noteq> None
      then s\<lparr>ownershipChangeListeners := setAdd eventComponentInstance (ownershipChangeListeners s)\<rparr>
      else s)"

definition unmountEventResponder :: "nat \<Rightarrow> inst_ref \<Rightarrow> unit action" where
  "unmountEventResponder depth eventComponentInstance s =
     (let rd = responderObjects s (responder (instanceObjects s eventComponentInstance))
      in andThen
           (\<lambda>s. case onUnmount rd of
                   None \<Rightarrow> (Inr (), s)
                 | Some cb \<Rightarrow>
                     tryFinally (invokeCallback (invoke depth) OnUnmount eventComponentInstance cb)
                       (\<lambda>s'. s'\<lparr>currentEventQueue := None, currentInstance := None,
                                 currentTimers := None\<rparr>)
                       (s\<lparr>currentEventQueue := Some createEventQueue,
                          currentInstance := Some eventComponentInstance\<rparr>))
           (\<lambda>_. andThen
                   (\<lambda>s. if currentOwner s = Some eventComponentInstance
                         then triggerOwnershipListeners (invoke depth) (s\<lparr>currentOwner := None\<rparr>)
                         else (Inr (), s))
                   (\<lambda>_ s.
                      (let s1 = (if onOwnershipChange rd \<noteq> None
                                 then s\<lparr>ownershipChangeListeners :=
                                          setDelete eventComponentInstance
                                            (ownershipChangeListeners s)\<rparr>
                                 else s)
                       in (Inr (),
                           case rootEventTypes (instanceObjects s1 eventComponentInstance) of
                             None \<Rightarrow> s1
                           | Some rootEventTypesSet \<Rightarrow>
                               foldl (\<lambda>s' topLevelEventType.
                                        deleteFromRootEventComponentInstances topLevelEventType
                                          eventComponentInstance s')
                                 s1 rootEventTypesSet))))
           s)"

fun addRootEventTypesForComponentInstance ::
  "inst_ref \<Rightarrow> ReactEventResponderEventType list \<Rightarrow> engine \<Rightarrow> engine" where
  "addRootEventTypesForComponentInstance eventComponentInstance [] s = s"
| "addRootEventTypesForComponentInstance eventComponentInstance (rootEventType # rest) s =
     (let topLevelEventType = topLevelEventTypeOf rootEventType;
          s1 = ensureRootEventComponentInstances topLevelEventType s;
          rootEventTypesSet = rootEventTypesSetOf eventComponentInstance s1
      in addRootEventTypesForComponentInstance eventComponentInstance rest
           (addToRootEventComponentInstances topLevelEventType eventComponentInstance
              (setRootEventTypes eventComponentInstance
                 (setAdd topLevelEventType rootEventTypesSet) s1)))"

subsection \<open>Notions used by the properties\<close>

text \<open>The three callbacks of the phases of a dispatch.\<close>

fun phaseCallback :: "callback_kind \<Rightarrow> bool" where
  "phaseCallback OnEventCapture = True"
| "phaseCallback OnEvent = True"
| "phaseCallback OnRootEvent = True"
| "phaseCallback _ = False"

fun isPhaseEffect :: "effect \<Rightarrow> bool" where
  "isPhaseEffect (Invoked kind i ow) = phaseCallback kind"
| "isPhaseEffect _ = False"

text \<open>The effects that a run from \<open>s\<close> to \<open>s'\<close> has added.\<close>

definition effectsSince :: "engine \<Rightarrow> engine \<Rightarrow> effect list" where
  "effectsSince s s' = drop (length (effects s)) (effects s')"

text \<open>The instances on which a callback of one kind was invoked, in order.\<close>

fun invocationsOf :: "callback_kind \<Rightarrow> effect list \<Rightarrow> inst_ref list" where
  "invocationsOf kind [] = []"
| "invocationsOf kind (Invoked kind' i ow # es) =
     (if kind' = kind then i # invocationsOf kind es else invocationsOf kind es)"
| "invocationsOf kind (e # es) = invocationsOf kind es"

definition responderOf :: "engine \<Rightarrow> inst_ref \<Rightarrow> ReactEventResponder" where
  "responderOf s i = responderObjects s (responder (instanceObjects s i))"

text \<open>
  An instance is registered at the root for an event type when the type is in the set
  of the instance and the instance is in the set of the type.
\<close>

definition registeredAtRoot :: "inst_ref \<Rightarrow> string \<Rightarrow> engine \<Rightarrow> bool" where
  "registeredAtRoot i t s =
     (t \<in> set (rootEventTypesSetOf i s) \<and>
      (case rootEventTypesToEventComponentInstances s t of
         None \<Rightarrow> False
       | Some rootEventComponentInstances \<Rightarrow> i \<in> set rootEventComponentInstances))"

text \<open>
  A run is quiet when it leaves the responders and the responder of every instance as
  they are and adds no invocation of a phase callback to the effects.
\<close>

definition quietStep :: "engine \<Rightarrow> engine \<Rightarrow> bool" where
  "quietStep s s' =
     (responderObjects s' = responderObjects s \<and>
      (\<forall>i. responder (instanceObjects s' i) = responder (instanceObjects s i)) \<and>
      (\<exists>es. effects s' = effects s @ es \<and> (\<forall>e \<in> set es. \<not> isPhaseEffect e)))"

definition quietAction :: "'a action \<Rightarrow> bool" where
  "quietAction m = (\<forall>s. quietStep s (snd (m s)))"

definition quietRunner :: "runner \<Rightarrow> bool" where
  "quietRunner run = (\<forall>cb. quietAction (run cb))"

definition sameResponders :: "engine \<Rightarrow> engine \<Rightarrow> bool" where
  "sameResponders s s' =
     (responderObjects s' = responderObjects s \<and>
      (\<forall>i. responder (instanceObjects s' i) = responder (instanceObjects s i)))"

definition extendsEffects :: "engine \<Rightarrow> engine \<Rightarrow> bool" where
  "extendsEffects s s' = (\<exists>es. effects s' = effects s @ es)"

text \<open>
  The instances that a loop over the target instances invokes when no callback throws:
  the loop's own decisions, without the callbacks.
\<close>

fun firingOrder ::
  "engine \<Rightarrow> (ReactEventResponder \<Rightarrow> callback option) \<Rightarrow> resp_ref list \<Rightarrow> inst_ref list \<Rightarrow>
   inst_ref list" where
  "firingOrder s eventListenerOf propagated [] = []"
| "firingOrder s eventListenerOf propagated (i # rest) =
     (let r = responder (instanceObjects s i);
          rd = responderObjects s r
      in if stopLocalPropagation rd \<and> r \<in> set propagated
         then firingOrder s eventListenerOf propagated rest
         else (case eventListenerOf rd of None \<Rightarrow> [] | Some _ \<Rightarrow> [i]) @
              firingOrder s eventListenerOf
                (if stopLocalPropagation rd then setAdd r propagated else propagated) rest)"

text \<open>
  The invocations of phase callbacks among the effects \<open>es\<close> are all of the kind
  \<open>kind\<close> and on instances of \<open>xs\<close>.
\<close>

definition phaseOnly :: "callback_kind \<Rightarrow> inst_ref list \<Rightarrow> effect list \<Rightarrow> bool" where
  "phaseOnly kind xs es =
     (\<forall>k i ow. Invoked k i ow \<in> set es \<longrightarrow> phaseCallback k \<longrightarrow> k = kind \<and> i \<in> set xs)"

text \<open>
  Among the effects \<open>es\<close>, every phase callback was invoked while \<open>X\<close> was the
  owner (\<open>ownedBy\<close>), and every phase callback was invoked on \<open>X\<close>
  (\<open>onlyOn\<close>).
\<close>

definition ownedBy :: "inst_ref \<Rightarrow> effect list \<Rightarrow> bool" where
  "ownedBy X es = (\<forall>k i ow. Invoked k i ow \<in> set es \<longrightarrow> phaseCallback k \<longrightarrow> ow = Some X)"

definition onlyOn :: "inst_ref \<Rightarrow> effect list \<Rightarrow> bool" where
  "onlyOn X es = (\<forall>k i ow. Invoked k i ow \<in> set es \<longrightarrow> phaseCallback k \<longrightarrow> i = X)"

text \<open>The instances in the set of an event type at the root; none when the type has no set.\<close>

definition rootInstancesOf :: "engine \<Rightarrow> string \<Rightarrow> inst_ref list" where
  "rootInstancesOf s t =
     (case rootEventTypesToEventComponentInstances s t of
        None \<Rightarrow> []
      | Some rootEventComponentInstances \<Rightarrow> rootEventComponentInstances)"

definition registerStep :: "inst_ref \<Rightarrow> string \<Rightarrow> engine \<Rightarrow> engine" where
  "registerStep i t s =
     addToRootEventComponentInstances t i
       (setRootEventTypes i
          (setAdd t (rootEventTypesSetOf i (ensureRootEventComponentInstances t s)))
          (ensureRootEventComponentInstances t s))"

subsection \<open>Concrete engines\<close>

text \<open>
  The module variables as the module initialises them, over given instance and
  responder objects.
\<close>

definition initialEngine ::
  "(inst_ref \<Rightarrow> ReactEventComponentInstance) \<Rightarrow> (resp_ref \<Rightarrow> ReactEventResponder) \<Rightarrow> engine" where
  "initialEngine insts resps =
     \<lparr>instanceObjects = insts, responderObjects = resps,
      timeoutObjects = (\<lambda>_. \<lparr>timeout_id = 0, timers = []\<rparr>),
      activeTimeouts = Map.empty,
      rootEventTypesToEventComponentInstances = Map.empty,
      targetEventTypeCached = Map.empty,
      ownershipChangeListeners = [],
      eventListeners = Map.empty,
      currentTimers = Some Map.empty,
      currentOwner = None, currentInstance = None, currentEventQueue = None,
      nextTimeoutID = 0, nextTimeoutRef = 0, nextSymbol = 0,
      effects = []\<rparr>"

definition inertResponder :: ReactEventResponder where
  "inertResponder =
     \<lparr>targetEventTypes = [], stopLocalPropagation = False, onEventCapture = None,
      onEvent = None, onRootEvent = None, onOwnershipChange = None, onUnmount = None\<rparr>"

text \<open>An engine inside a cycle whose current instance 1 has registered \<open>click\<close>.\<close>

definition clickRegistered :: engine where
  "clickRegistered =
     (addRootEventTypesForComponentInstance 1 [EventTypeString ''click'']
        (initialEngine (\<lambda>_. \<lparr>responder = 0, rootEventTypes = None\<rparr>) (\<lambda>_. inertResponder)))
     \<lparr>currentInstance := Some 1, currentEventQueue := Some createEventQueue\<rparr>"

text \<open>
  Instance 1 has registered \<open>click\<close> and has then been unmounted: the unmount takes
  the instance out of the set of the type and leaves the set of the instance as it is.
\<close>

definition clickUnmounted :: engine where
  "clickUnmounted =
     snd (unmountEventResponder (Suc 0) 1
            (addRootEventTypesForComponentInstance 1 [EventTypeString ''click'']
               (initialEngine (\<lambda>_. \<lparr>responder = 0, rootEventTypes = None\<rparr>)
                  (\<lambda>_. inertResponder))))"

definition listeningResponder :: ReactEventResponder where
  "listeningResponder = inertResponder\<lparr>onOwnershipChange := Some [HasOwnership]\<rparr>"

text \<open>An engine inside a cycle: instance 1 is current and owns; instance 2 listens.\<close>

definition ownerInCycle :: engine where
  "ownerInCycle =
     (mountEventResponder 2
        (initialEngine (\<lambda>i. \<lparr>responder = i, rootEventTypes = None\<rparr>)
           (\<lambda>r. if r = 2 then listeningResponder else inertResponder)))
     \<lparr>currentOwner := Some 1, currentInstance := Some 1,
      currentEventQueue := Some createEventQueue\<rparr>"


text \<open>
  Two mounted instances: the responder of instance 1 requests ownership on a
  \<open>press\<close>; the responder of instance 2 asks \<open>hasOwnership\<close> whenever the
  owner changes. \<open>afterPress\<close> is the engine after a \<open>press\<close> on instance 1.
\<close>

definition requestingResponder :: ReactEventResponder where
  "requestingResponder =
     inertResponder\<lparr>targetEventTypes := [EventTypeString ''press''],
                     onEvent := Some [RequestOwnership]\<rparr>"

definition mountedPair :: engine where
  "mountedPair =
     mountEventResponder 2
       (mountEventResponder 1
          (initialEngine (\<lambda>i. \<lparr>responder = i, rootEventTypes = None\<rparr>)
             (\<lambda>r. if r = 1 then requestingResponder
                   else if r = 2 then listeningResponder else inertResponder)))"

definition afterPress :: engine where
  "afterPress =
     snd (dispatchEventForResponderEventSystem True (Suc (Suc 0)) ''press''
            (Some (Fiber 0 (EventComponent 1) [] None)) mountedPair)"

definition idleEngine :: engine where
  "idleEngine = initialEngine (\<lambda>i. \<lparr>responder = i, rootEventTypes = None\<rparr>) (\<lambda>r. inertResponder)"

definition someNode :: dom_node where
  "someNode = \<lparr>closestInstance = Some (Fiber 0 OtherWorkTag [] None), parentRect = (0, 0, 0, 0)\<rparr>"


text \<open>
  Two nested event components: the fiber of instance 1 is the target, the fiber of
  instance 2 is its parent. The responders react to \<open>press\<close> in every phase, with
  callbacks that do nothing, and stop local propagation. In \<open>sharedDefinition\<close> the
  two instances have one responder object (5); in \<open>ownDefinitions\<close> each instance has
  a responder object of its own; in \<open>ownedByTwo\<close> both instances are also registered
  at the root and instance 2 is the owner.
\<close>

definition stoppingResponder :: ReactEventResponder where
  "stoppingResponder =
     inertResponder\<lparr>targetEventTypes := [EventTypeString ''press''],
                     stopLocalPropagation := True,
                     onEventCapture := Some [], onEvent := Some [], onRootEvent := Some []\<rparr>"

definition nestedFiber :: fiber where
  "nestedFiber = Fiber 0 (EventComponent 1) [] (Some (Fiber 1 (EventComponent 2) [] None))"

definition sharedDefinition :: engine where
  "sharedDefinition =
     initialEngine (\<lambda>i. \<lparr>responder = 5, rootEventTypes = None\<rparr>) (\<lambda>r. stoppingResponder)"

definition ownDefinitions :: engine where
  "ownDefinitions =
     initialEngine (\<lambda>i. \<lparr>responder = i, rootEventTypes = None\<rparr>) (\<lambda>r. stoppingResponder)"

definition ownedByTwo :: engine where
  "ownedByTwo =
     (addRootEventTypesForComponentInstance 2 [EventTypeString ''press'']
        (addRootEventTypesForComponentInstance 1 [EventTypeString ''press''] ownDefinitions))
     \<lparr>currentOwner := Some 2\<rparr>"


text \<open>
  Instance 1 owns and its responder releases the ownership on a \<open>press\<close>;
  instance 2, not in the tree of the target, is registered at the root for \<open>press\<close>.
\<close>

definition releasingResponder :: ReactEventResponder where
  "releasingResponder =
     inertResponder\<lparr>targetEventTypes := [EventTypeString ''press''],
                     onEvent := Some [ReleaseOwnership]\<rparr>"

definition rootListeningResponder :: ReactEventResponder where
  "rootListeningResponder = inertResponder\<lparr>onRootEvent := Some []\<rparr>"

definition ownerReleases :: engine where
  "ownerReleases =
     (addRootEventTypesForComponentInstance 2 [EventTypeString ''press'']
        (initialEngine (\<lambda>i. \<lparr>responder = i, rootEventTypes = None\<rparr>)
           (\<lambda>r. if r = 1 then releasingResponder
                 else if r = 2 then rootListeningResponder else inertResponder)))
     \<lparr>currentOwner := Some 1\<rparr>"

text \<open>The timeout group of a delay in the map of the current cycle.\<close>

definition timersForDelay :: "engine \<Rightarrow> int \<Rightarrow> timeout_ref option" where
  "timersForDelay s delay = (case currentTimers s of None \<Rightarrow> None | Some m \<Rightarrow> m delay)"

text \<open>
  \<open>inCycle\<close>: an engine inside a cycle, instance 1 current. \<open>selfCancelling\<close>:
  the engine after a cycle in which instance 1 has scheduled a timer (token 0, group 0)
  whose callback cancels token 0. \<open>bothCancelled\<close>: the engine inside a cycle in which
  two timers of the delay 10 were scheduled and then both cancelled.
\<close>

definition inCycle :: engine where
  "inCycle = idleEngine\<lparr>currentInstance := Some 1, currentEventQueue := Some createEventQueue\<rparr>"

definition selfCancelling :: engine where
  "selfCancelling = endCycle (snd (setTimeout [ClearTimeout 0] 10 inCycle))"

definition bothCancelled :: engine where
  "bothCancelled =
     snd (clearTimeout 1 (snd (clearTimeout 0
       (snd (setTimeout [] 10 (snd (setTimeout [] 10 inCycle)))))))"

text \<open>
  The responder of instance 1 schedules a timer of the delay 10 on a \<open>press\<close>
  (token 0), cancels it, and schedules a second timer of the same delay (token 1).
\<close>

definition reschedulingResponder :: ReactEventResponder where
  "reschedulingResponder =
     inertResponder\<lparr>targetEventTypes := [EventTypeString ''press''],
                     onEvent := Some [SetTimeout [] 10, ClearTimeout 0,
                                      SetTimeout [HasOwnership] 10]\<rparr>"

definition rescheduling :: engine where
  "rescheduling =
     initialEngine (\<lambda>i. \<lparr>responder = i, rootEventTypes = None\<rparr>)
       (\<lambda>r. if r = 1 then reschedulingResponder else inertResponder)"


section \<open>Properties\<close>

subsection \<open>Quiet runs\<close>

lemma quietStep_refl: "quietStep s s"
  by (simp add: quietStep_def)

lemma quietStep_trans: "quietStep s s1 \<Longrightarrow> quietStep s1 s2 \<Longrightarrow> quietStep s s2"
  unfolding quietStep_def by (elim conjE exE) (rule conjI, simp, rule conjI, simp, auto)

lemma quietActionI: "(\<And>s. quietStep s (snd (m s))) \<Longrightarrow> quietAction m"
  by (simp add: quietAction_def)

lemma quietActionD: "quietAction m \<Longrightarrow> quietStep s (snd (m s))"
  by (simp add: quietAction_def)

lemma quiet_andThen:
  assumes "quietAction m" and "\<And>v. quietAction (f v)"
  shows "quietAction (andThen m f)"
proof (rule quietActionI)
  fix s :: engine
  obtain r s1 where m: "m s = (r, s1)" by (cases "m s")
  have q1: "quietStep s s1" using quietActionD[OF assms(1), of s] m by simp
  show "quietStep s (snd (andThen m f s))"
  proof (cases r)
    case (Inl e)
    then show ?thesis using m q1 by (simp add: andThen_def)
  next
    case (Inr v)
    have "quietStep s1 (snd (f v s1))" using assms(2) by (rule quietActionD)
    with q1 have "quietStep s (snd (f v s1))" by (rule quietStep_trans)
    then show ?thesis using m Inr by (simp add: andThen_def)
  qed
qed

lemma quiet_tryFinally:
  assumes "quietAction m" and "\<And>s. quietStep s (cleanup s)"
  shows "quietAction (tryFinally m cleanup)"
proof (rule quietActionI)
  fix s :: engine
  obtain r s1 where m: "m s = (r, s1)" by (cases "m s")
  have "quietStep s s1" using quietActionD[OF assms(1), of s] m by simp
  then have "quietStep s (cleanup s1)" using assms(2) by (rule quietStep_trans)
  then show "quietStep s (snd (tryFinally m cleanup s))" using m by (simp add: tryFinally_def)
qed

lemma quiet_after:
  assumes "quietAction m" and "quietStep s s1"
  shows "quietStep s (snd (m s1))"
  using assms(2) quietActionD[OF assms(1)] by (rule quietStep_trans)

lemma quiet_validate: "quietAction validateResponderContext"
  by (rule quietActionI) (simp add: validateResponderContext_def quietStep_refl)

lemma quiet_discardResult: "quietAction m \<Longrightarrow> quietAction (discardResult m)"
  unfolding discardResult_def
  by (rule quiet_andThen) (auto intro: quietActionI simp: quietStep_refl)

lemma quiet_dispatchEvent: "quietAction (dispatchEvent ev lst d)"
  unfolding dispatchEvent_def
  by (rule quiet_andThen[OF quiet_validate], rule quietActionI)
     (simp add: quietStep_def Let_def split: option.splits)

lemma quiet_isPositionWithinTouchHitTarget: "quietAction (isPositionWithinTouchHitTarget doc x y)"
  unfolding isPositionWithinTouchHitTarget_def
  by (rule quiet_andThen[OF quiet_validate], rule quietActionI)
     (simp add: quietStep_refl split: option.splits prod.splits)

lemma quiet_isTargetWithinEventComponent: "quietAction (isTargetWithinEventComponent t)"
  unfolding isTargetWithinEventComponent_def
  by (rule quiet_andThen[OF quiet_validate], rule quietActionI)
     (simp add: quietStep_refl split: option.splits)

lemma quiet_isTargetWithinElement: "quietAction (isTargetWithinElement c p)"
  by (rule quietActionI) (simp add: isTargetWithinElement_def quietStep_refl split: option.splits)

lemma quiet_getEventTargetsFromTarget: "quietAction (getEventTargetsFromTarget t qt qk)"
  unfolding getEventTargetsFromTarget_def
  by (rule quiet_andThen[OF quiet_validate], rule quietActionI)
     (simp add: quietStep_refl split: option.splits)

lemma quiet_hasOwnership: "quietAction hasOwnership"
  unfolding hasOwnership_def
  by (rule quiet_andThen[OF quiet_validate], rule quietActionI) (simp add: quietStep_refl)

lemma quiet_setRootEventTypes: "quietStep s (setRootEventTypes i ts s)"
  by (simp add: quietStep_def setRootEventTypes_def)

lemma quiet_ensureRoot: "quietStep s (ensureRootEventComponentInstances t s)"
  by (simp add: quietStep_def ensureRootEventComponentInstances_def split: option.splits)

lemma quiet_addToRoot: "quietStep s (addToRootEventComponentInstances t i s)"
  by (simp add: quietStep_def addToRootEventComponentInstances_def)

lemma quiet_deleteFromRoot: "quietStep s (deleteFromRootEventComponentInstances t i s)"
  by (simp add: quietStep_def deleteFromRootEventComponentInstances_def split: option.splits)

lemma quiet_addRootEventTypesLoop: "quietStep s (snd (addRootEventTypesLoop types s))"
proof (induction types arbitrary: s)
  case Nil
  then show ?case by (simp add: quietStep_refl)
next
  case (Cons ty types)
  let ?t = "topLevelEventTypeOf ty"
  let ?s1 = "ensureRootEventComponentInstances ?t s"
  have 1: "quietStep s ?s1" by (rule quiet_ensureRoot)
  show ?case
  proof (cases "currentInstance ?s1")
    case None
    then show ?thesis using 1 by (simp add: Let_def)
  next
    case (Some ci)
    let ?s3 = "addToRootEventComponentInstances ?t ci
                 (setRootEventTypes ci (setAdd ?t (rootEventTypesSetOf ci ?s1)) ?s1)"
    have "quietStep s ?s3"
      by (rule quietStep_trans[OF 1], rule quietStep_trans[OF quiet_setRootEventTypes], rule quiet_addToRoot)
    then have "quietStep s (snd (addRootEventTypesLoop types ?s3))"
      using Cons.IH by (rule quietStep_trans)
    then show ?thesis using Some 1 by (simp add: Let_def)
  qed
qed

lemma quiet_addRootEventTypes: "quietAction (addRootEventTypes doc types)"
  unfolding addRootEventTypes_def
proof (rule quiet_andThen[OF quiet_validate], rule quietActionI)
  fix s :: engine
  have "quietStep s (s\<lparr>effects := effects s @ [ListenToResponderEventTypes types]\<rparr>)"
    by (simp add: quietStep_def)
  then show "quietStep s (snd (addRootEventTypesLoop types
                (s\<lparr>effects := effects s @ [ListenToResponderEventTypes types]\<rparr>)))"
    using quiet_addRootEventTypesLoop by (rule quietStep_trans)
qed

lemma quiet_removeRootEventTypesLoop: "quietStep s (snd (removeRootEventTypesLoop types s))"
proof (induction types arbitrary: s)
  case Nil
  then show ?case by (simp add: quietStep_refl)
next
  case (Cons ty types)
  show ?case
  proof (cases "currentInstance s")
    case None
    then show ?thesis by (simp add: Let_def quietStep_refl)
  next
    case (Some i)
    let ?s1 = "case rootEventTypes (instanceObjects s i) of None \<Rightarrow> s
               | Some ts \<Rightarrow> setRootEventTypes i (setDelete (topLevelEventTypeOf ty) ts) s"
    have "quietStep s ?s1" by (simp add: quietStep_refl quiet_setRootEventTypes split: option.splits)
    then have "quietStep s (deleteFromRootEventComponentInstances (topLevelEventTypeOf ty) i ?s1)"
      using quiet_deleteFromRoot by (rule quietStep_trans)
    then have "quietStep s (snd (removeRootEventTypesLoop types
                 (deleteFromRootEventComponentInstances (topLevelEventTypeOf ty) i ?s1)))"
      using Cons.IH by (rule quietStep_trans)
    then show ?thesis using Some by (simp add: Let_def)
  qed
qed

lemma quiet_removeRootEventTypes: "quietAction (removeRootEventTypes types)"
  unfolding removeRootEventTypes_def
  by (rule quiet_andThen[OF quiet_validate], rule quietActionI, rule quiet_removeRootEventTypesLoop)

lemma quiet_hostSetTimeout: "quietStep s (snd (hostSetTimeout r d s))"
  by (simp add: hostSetTimeout_def quietStep_def)

lemma quiet_hostClearTimeout: "quietStep s (hostClearTimeout tid s)"
  by (simp add: hostClearTimeout_def quietStep_def)

lemma quiet_setTimeout: "quietAction (setTimeout func delay)"
  unfolding setTimeout_def
  by (rule quiet_andThen[OF quiet_validate], rule quietActionI)
     (simp add: quietStep_def hostSetTimeout_def Let_def split: option.splits prod.splits)

lemma quiet_clearTimeout: "quietAction (clearTimeout timerId)"
  unfolding clearTimeout_def
  by (rule quiet_andThen[OF quiet_validate], rule quietActionI)
     (simp add: quietStep_def hostClearTimeout_def Let_def split: option.splits)

lemma quiet_invokeCallback:
  assumes "quietRunner run" and "\<not> phaseCallback kind"
  shows "quietAction (invokeCallback run kind i cb)"
proof (rule quietActionI)
  fix s :: engine
  have "quietStep s (s\<lparr>effects := effects s @ [Invoked kind i (currentOwner s)]\<rparr>)"
    using assms(2) by (simp add: quietStep_def)
  moreover have "quietAction (run cb)" using assms(1) by (simp add: quietRunner_def)
  ultimately show "quietStep s (snd (invokeCallback run kind i cb s))"
    unfolding invokeCallback_def by (rule quiet_after[rotated])
qed

lemma quiet_triggerOwnershipListenersLoop:
  assumes "quietRunner run"
  shows "quietStep s (snd (triggerOwnershipListenersLoop run is s))"
proof (induction "is" arbitrary: s)
  case Nil
  then show ?case by (simp add: quietStep_refl)
next
  case (Cons i rest)
  have 1: "quietStep s (s\<lparr>currentInstance := Some i\<rparr>)" by (simp add: quietStep_def)
  show ?case
  proof (cases "onOwnershipChange (responderObjects s (responder (instanceObjects s i)))")
    case None
    then show ?thesis using 1 by (simp add: Let_def)
  next
    case (Some cb)
    have "quietAction (andThen (invokeCallback run OnOwnershipChange i cb)
                         (\<lambda>_. triggerOwnershipListenersLoop run rest))"
      by (rule quiet_andThen, rule quiet_invokeCallback[OF assms], simp, rule quietActionI, rule Cons.IH)
    from quiet_after[OF this 1] Some show ?thesis by (simp add: Let_def)
  qed
qed

lemma quiet_triggerOwnershipListeners:
  assumes "quietRunner run"
  shows "quietAction (triggerOwnershipListeners run)"
proof (rule quietActionI)
  fix s :: engine
  have "quietAction (tryFinally (triggerOwnershipListenersLoop run (ownershipChangeListeners s))
          (\<lambda>s'. s'\<lparr>currentInstance := currentInstance s\<rparr>))"
    by (rule quiet_tryFinally, rule quietActionI, rule quiet_triggerOwnershipListenersLoop[OF assms])
       (simp add: quietStep_def)
  then show "quietStep s (snd (triggerOwnershipListeners run s))"
    unfolding triggerOwnershipListeners_def Let_def by (rule quietActionD)
qed

lemma quiet_requestOwnership:
  assumes "quietRunner run"
  shows "quietAction (requestOwnership run)"
  unfolding requestOwnership_def
proof (rule quiet_andThen[OF quiet_validate], rule quietActionI)
  fix s :: engine
  have a: "quietAction (andThen (triggerOwnershipListeners run) (\<lambda>_ s'. (Inr True, s')))"
    by (rule quiet_andThen[OF quiet_triggerOwnershipListeners[OF assms]])
       (simp add: quietActionI quietStep_refl)
  have "quietStep s (s\<lparr>currentOwner := currentInstance s\<rparr>)" by (simp add: quietStep_def)
  from quiet_after[OF a this]
  show "quietStep s (snd (if currentOwner s \<noteq> None then (Inr False, s)
          else andThen (triggerOwnershipListeners run) (\<lambda>_ s'. (Inr True, s'))
                 (s\<lparr>currentOwner := currentInstance s\<rparr>)))"
    by (simp add: quietStep_refl)
qed

lemma quiet_releaseOwnership:
  assumes "quietRunner run"
  shows "quietAction (releaseOwnership run)"
  unfolding releaseOwnership_def
proof (rule quiet_andThen[OF quiet_validate], rule quietActionI)
  fix s :: engine
  have a: "quietAction (andThen (triggerOwnershipListeners run) (\<lambda>_ s'. (Inr False, s')))"
    by (rule quiet_andThen[OF quiet_triggerOwnershipListeners[OF assms]])
       (simp add: quietActionI quietStep_refl)
  have "quietStep s (s\<lparr>currentOwner := None\<rparr>)" by (simp add: quietStep_def)
  from quiet_after[OF a this]
  show "quietStep s (snd (if currentOwner s \<noteq> currentInstance s then (Inr False, s)
          else andThen (triggerOwnershipListeners run) (\<lambda>_ s'. (Inr False, s'))
                 (s\<lparr>currentOwner := None\<rparr>)))"
    by (simp add: quietStep_refl)
qed

lemma quiet_contextCall:
  assumes "quietRunner run"
  shows "quietAction (contextCall run c)"
proof (cases c)
  case (Throw n)
  then show ?thesis by (simp add: quietActionI quietStep_refl)
qed (simp_all add: quiet_discardResult quiet_dispatchEvent quiet_isPositionWithinTouchHitTarget
      quiet_isTargetWithinEventComponent quiet_isTargetWithinElement quiet_addRootEventTypes
      quiet_removeRootEventTypes quiet_hasOwnership quiet_requestOwnership[OF assms]
      quiet_releaseOwnership[OF assms] quiet_setTimeout quiet_clearTimeout
      quiet_getEventTargetsFromTarget)

lemma quiet_callbackBody:
  assumes "quietRunner run"
  shows "quietStep s (snd (callbackBody run cb s))"
proof (induction cb arbitrary: s)
  case Nil
  then show ?case by (simp add: quietStep_refl)
next
  case (Cons c cs)
  obtain r s1 where c: "contextCall run c s = (r, s1)" by (cases "contextCall run c s")
  have 1: "quietStep s s1" using quietActionD[OF quiet_contextCall[OF assms, of c], of s] c by simp
  show ?case
  proof (cases r)
    case (Inl e)
    then show ?thesis using c 1 by simp
  next
    case (Inr v)
    from quietStep_trans[OF 1 Cons.IH] show ?thesis using c Inr by simp
  qed
qed

lemma quiet_invoke: "quietRunner (invoke depth)"
proof (induction depth)
  case 0
  show ?case by (simp add: quietRunner_def quietAction_def quietStep_refl)
next
  case (Suc depth)
  then show ?case by (simp add: quietRunner_def quietAction_def quiet_callbackBody)
qed

subsection \<open>Registration at the root\<close>

lemma setRootEventTypes_simps:
  "currentInstance (setRootEventTypes i ts s) = currentInstance s"
  "rootEventTypesToEventComponentInstances (setRootEventTypes i ts s) = rootEventTypesToEventComponentInstances s"
  "rootEventTypesSetOf i (setRootEventTypes i ts s) = ts"
  by (simp_all add: setRootEventTypes_def rootEventTypesSetOf_def)

lemma addTo_simps:
  "currentInstance (addToRootEventComponentInstances t i s) = currentInstance s"
  "instanceObjects (addToRootEventComponentInstances t i s) = instanceObjects s"
  "rootEventTypesSetOf j (addToRootEventComponentInstances t i s) = rootEventTypesSetOf j s"
  by (simp_all add: addToRootEventComponentInstances_def rootEventTypesSetOf_def)

lemma ensure_simps:
  "currentInstance (ensureRootEventComponentInstances t s) = currentInstance s"
  "instanceObjects (ensureRootEventComponentInstances t s) = instanceObjects s"
  "rootEventTypesSetOf j (ensureRootEventComponentInstances t s) = rootEventTypesSetOf j s"
  by (simp_all add: ensureRootEventComponentInstances_def rootEventTypesSetOf_def split: option.splits)

lemma addRootEventTypesLoop_duplicate:
  "currentInstance s = Some i \<Longrightarrow>
   \<exists>ty \<in> set types. topLevelEventTypeOf ty \<in> set (rootEventTypesSetOf i s) \<Longrightarrow>
   \<exists>t. fst (addRootEventTypesLoop types s) = Inl (DuplicateRootEventType t)"
proof (induction types arbitrary: s)
  case Nil
  then show ?case by simp
next
  case (Cons ty types)
  show ?case
  proof (cases "topLevelEventTypeOf ty \<in> set (rootEventTypesSetOf i s)")
    case True
    with Cons.prems(1) show ?thesis by (simp add: Let_def ensure_simps)
  next
    case False
    let ?s' = "addToRootEventComponentInstances (topLevelEventTypeOf ty) i
                 (setRootEventTypes i (setAdd (topLevelEventTypeOf ty)
                    (rootEventTypesSetOf i (ensureRootEventComponentInstances (topLevelEventTypeOf ty) s)))
                    (ensureRootEventComponentInstances (topLevelEventTypeOf ty) s))"
    from False Cons.prems(2) obtain ty' where ty': "ty' \<in> set types"
      "topLevelEventTypeOf ty' \<in> set (rootEventTypesSetOf i s)" by auto
    have cur: "currentInstance ?s' = Some i"
      using Cons.prems(1) by (simp add: addTo_simps setRootEventTypes_simps ensure_simps)
    have "topLevelEventTypeOf ty' \<in> set (rootEventTypesSetOf i ?s')"
      using ty'(2) by (simp add: addTo_simps setRootEventTypes_simps ensure_simps setAdd_def)
    with ty'(1) have "\<exists>ty \<in> set types. topLevelEventTypeOf ty \<in> set (rootEventTypesSetOf i ?s')"
      by blast
    from Cons.IH[OF cur this] False Cons.prems(1) show ?thesis
      by (simp add: Let_def ensure_simps)
  qed
qed

lemma addStatic_Cons:
  "addRootEventTypesForComponentInstance i (ty # rest) s =
     addRootEventTypesForComponentInstance i rest (registerStep i (topLevelEventTypeOf ty) s)"
  by (simp add: registerStep_def Let_def)

lemma registerStep_registered_id:
  assumes "registeredAtRoot i t s"
  shows "registerStep i t s = s"
proof -
  from assms obtain b where b: "rootEventTypesToEventComponentInstances s t = Some b" "i \<in> set b"
    by (auto simp: registeredAtRoot_def split: option.splits)
  from assms obtain ts where ts: "rootEventTypes (instanceObjects s i) = Some ts" "t \<in> set ts"
    by (cases "rootEventTypes (instanceObjects s i)") (auto simp: registeredAtRoot_def rootEventTypesSetOf_def)
  have e: "ensureRootEventComponentInstances t s = s"
    using b by (simp add: ensureRootEventComponentInstances_def)
  have "(instanceObjects s)(i := (instanceObjects s i)\<lparr>rootEventTypes := Some ts\<rparr>) = instanceObjects s"
    using ts(1) by (metis ReactEventComponentInstance.surjective ReactEventComponentInstance.update_convs(2) fun_upd_triv)
  then have r: "setRootEventTypes i (setAdd t (rootEventTypesSetOf i s)) s = s"
    using ts by (simp add: setRootEventTypes_def rootEventTypesSetOf_def setAdd_def)
  have "(rootEventTypesToEventComponentInstances s)(t \<mapsto> b) = rootEventTypesToEventComponentInstances s"
    using b(1) by (rule map_upd_triv)
  then have a: "addToRootEventComponentInstances t i s = s"
    using b by (simp add: addToRootEventComponentInstances_def setAdd_def)
  show ?thesis by (simp add: registerStep_def e r a)
qed

lemma registerStep_registers: "registeredAtRoot i t (registerStep i t s)"
  by (simp add: registerStep_def registeredAtRoot_def addToRootEventComponentInstances_def
      setRootEventTypes_def rootEventTypesSetOf_def setAdd_def ensureRootEventComponentInstances_def
      split: option.splits)

lemma registerStep_keeps: "registeredAtRoot i t' s \<Longrightarrow> registeredAtRoot i t' (registerStep i t s)"
  by (auto simp add: registerStep_def registeredAtRoot_def addToRootEventComponentInstances_def
      setRootEventTypes_def rootEventTypesSetOf_def setAdd_def ensureRootEventComponentInstances_def
      split: option.splits)

lemma addStatic_keeps:
  "registeredAtRoot i t' s \<Longrightarrow> registeredAtRoot i t' (addRootEventTypesForComponentInstance i types s)"
proof (induction types arbitrary: s)
  case Nil then show ?case by simp
next
  case (Cons ty types)
  then show ?case unfolding addStatic_Cons by (blast intro: registerStep_keeps)
qed

lemma addStatic_registers:
  "ty \<in> set types \<Longrightarrow>
   registeredAtRoot i (topLevelEventTypeOf ty) (addRootEventTypesForComponentInstance i types s)"
proof (induction types arbitrary: s)
  case Nil then show ?case by simp
next
  case (Cons a types)
  show ?case
  proof (cases "ty = a")
    case True
    then show ?thesis unfolding addStatic_Cons
      by (simp add: addStatic_keeps registerStep_registers)
  next
    case False
    with Cons.prems have "ty \<in> set types" by simp
    then show ?thesis unfolding addStatic_Cons by (rule Cons.IH)
  qed
qed

lemma addStatic_registered_id:
  "\<forall>ty \<in> set types. registeredAtRoot i (topLevelEventTypeOf ty) s \<Longrightarrow>
   addRootEventTypesForComponentInstance i types s = s"
proof (induction types)
  case Nil then show ?case by simp
next
  case (Cons a types)
  then show ?case unfolding addStatic_Cons by (simp add: registerStep_registered_id)
qed

lemma registerStep_present_instances:
  "t \<in> set (rootEventTypesSetOf i s) \<Longrightarrow> instanceObjects (registerStep i t s) = instanceObjects s"
proof -
  assume a: "t \<in> set (rootEventTypesSetOf i s)"
  then obtain ts where ts: "rootEventTypes (instanceObjects s i) = Some ts" "t \<in> set ts"
    by (cases "rootEventTypes (instanceObjects s i)") (auto simp: rootEventTypesSetOf_def)
  have "(instanceObjects s)(i := (instanceObjects s i)\<lparr>rootEventTypes := Some ts\<rparr>) = instanceObjects s"
    using ts(1) by (metis ReactEventComponentInstance.surjective ReactEventComponentInstance.update_convs(2) fun_upd_triv)
  then show ?thesis using ts
    by (simp add: registerStep_def addToRootEventComponentInstances_def
      setRootEventTypes_def rootEventTypesSetOf_def setAdd_def ensureRootEventComponentInstances_def
      split: option.splits)
qed

lemma addStatic_present_instances:
  "\<forall>ty \<in> set types. topLevelEventTypeOf ty \<in> set (rootEventTypesSetOf i s) \<Longrightarrow>
   instanceObjects (addRootEventTypesForComponentInstance i types s) = instanceObjects s"
proof (induction types arbitrary: s)
  case Nil then show ?case by simp
next
  case (Cons a types)
  have 1: "instanceObjects (registerStep i (topLevelEventTypeOf a) s) = instanceObjects s"
    using Cons.prems by (simp add: registerStep_present_instances)
  then have "\<forall>ty \<in> set types. topLevelEventTypeOf ty \<in> set (rootEventTypesSetOf i (registerStep i (topLevelEventTypeOf a) s))"
    using Cons.prems by (simp add: rootEventTypesSetOf_def)
  from Cons.IH[OF this] 1 show ?case unfolding addStatic_Cons by simp
qed


text \<open>
  C9. Inside a cycle, \<open>addRootEventTypes\<close> of the responder context throws when one
  of the types it is given is already in the \<open>rootEventTypes\<close> set of the current
  instance: the call ends with the invariant's fault, not with a result.
\<close>

theorem addRootEventTypes_duplicate_is_fault:
  assumes "currentEventQueue s \<noteq> None" and "currentInstance s = Some i"
    and "rootEventType \<in> set types"
    and "topLevelEventTypeOf rootEventType \<in> set (rootEventTypesSetOf i s)"
  shows "\<exists>t. fst (addRootEventTypes doc types s) = Inl (DuplicateRootEventType t)"
proof -
  let ?s = "s\<lparr>effects := effects s @ [ListenToResponderEventTypes types]\<rparr>"
  have "currentInstance ?s = Some i" using assms(2) by simp
  moreover have "\<exists>ty \<in> set types. topLevelEventTypeOf ty \<in> set (rootEventTypesSetOf i ?s)"
    using assms(3,4) by (auto simp: rootEventTypesSetOf_def)
  ultimately have "\<exists>t. fst (addRootEventTypesLoop types ?s) = Inl (DuplicateRootEventType t)"
    by (rule addRootEventTypesLoop_duplicate)
  then show ?thesis using assms(1,2)
    by (simp add: addRootEventTypes_def andThen_def validateResponderContext_def)
qed

theorem addRootEventTypes_duplicate_is_fault_witness:
  "\<exists>t. fst (addRootEventTypes None [EventTypeString ''click''] clickRegistered)
         = Inl (DuplicateRootEventType t)"
proof -
  have 1: "currentEventQueue clickRegistered \<noteq> None"
    by (simp add: clickRegistered_def)
  have 2: "currentInstance clickRegistered = Some 1"
    by (simp add: clickRegistered_def)
  have 3: "EventTypeString ''click'' \<in> set [EventTypeString ''click'']"
    by simp
  have 4: "topLevelEventTypeOf (EventTypeString ''click'') \<in> set (rootEventTypesSetOf 1 clickRegistered)"
    by (simp add: clickRegistered_def initialEngine_def rootEventTypesSetOf_def Let_def
        ensureRootEventComponentInstances_def setRootEventTypes_def setAdd_def
        addToRootEventComponentInstances_def)
  show ?thesis
    using addRootEventTypes_duplicate_is_fault[OF 1 2 3 4] .
qed

lemma registerStep_registry:
  "set (rootInstancesOf (registerStep i t s) u)
     = set (rootInstancesOf s u) \<union> (if u = t then {i} else {})"
  by (auto simp add: registerStep_def rootInstancesOf_def addToRootEventComponentInstances_def
      setRootEventTypes_def setAdd_def ensureRootEventComponentInstances_def
      split: option.splits)

lemma addStatic_registry:
  "set (rootInstancesOf (addRootEventTypesForComponentInstance i types s) u)
     = set (rootInstancesOf s u) \<union> (if u \<in> topLevelEventTypeOf ` set types then {i} else {})"
proof (induction types arbitrary: s)
  case Nil then show ?case by simp
next
  case (Cons a types)
  show ?case unfolding addStatic_Cons Cons.IH registerStep_registry by auto
qed

lemma clickUnmounted_eq:
  "clickUnmounted =
     (initialEngine (\<lambda>_. \<lparr>responder = 0, rootEventTypes = None\<rparr>) (\<lambda>_. inertResponder))
       \<lparr>instanceObjects := (\<lambda>_. \<lparr>responder = 0, rootEventTypes = None\<rparr>)
            (1 := \<lparr>responder = 0, rootEventTypes = Some [''click'']\<rparr>),
        rootEventTypesToEventComponentInstances := [''click'' \<mapsto> []]\<rparr>"
  by (simp add: clickUnmounted_def unmountEventResponder_def initialEngine_def inertResponder_def
      andThen_def Let_def rootEventTypesSetOf_def ensureRootEventComponentInstances_def
      setRootEventTypes_def setAdd_def setDelete_def addToRootEventComponentInstances_def
      deleteFromRootEventComponentInstances_def)

text \<open>
  C10, as stated, fails for the set of the type at the root: an instance that has been
  unmounted keeps \<open>click\<close> in its set and is no longer in the set of \<open>click\<close>;
  registering \<open>click\<close> for it puts it back there.
\<close>

theorem static_registration_after_unmount:
  "''click'' \<in> set (rootEventTypesSetOf 1 clickUnmounted) \<and>
   rootEventTypesToEventComponentInstances clickUnmounted ''click'' = Some [] \<and>
   rootEventTypesToEventComponentInstances
     (addRootEventTypesForComponentInstance 1 [EventTypeString ''click''] clickUnmounted) ''click''
     = Some [1]"
  by (simp add: clickUnmounted_eq initialEngine_def rootEventTypesSetOf_def
      ensureRootEventComponentInstances_def
      setRootEventTypes_def setAdd_def addToRootEventComponentInstances_def Let_def)

text \<open>
  C10, amended. \<open>addRootEventTypesForComponentInstance\<close> has no duplicate check and
  no fault: its result is an engine. Registering types that are already in the set of the
  instance leaves the instance objects as they are. At the root, a registration adds the
  instance to the set of each of its types and changes the members of no set otherwise.
  So when the instance is registered for the types (the type in the set of the instance
  and the instance in the set of the type, as every registration leaves them) the engine
  as a whole is left as it is, and doing a registration a second time changes nothing.
\<close>

theorem static_registration_is_idempotent:
  "((\<forall>ty \<in> set types. topLevelEventTypeOf ty \<in> set (rootEventTypesSetOf i s)) \<longrightarrow>
      instanceObjects (addRootEventTypesForComponentInstance i types s) = instanceObjects s) \<and>
   (\<forall>u. set (rootInstancesOf (addRootEventTypesForComponentInstance i types s) u)
          = set (rootInstancesOf s u) \<union>
            (if u \<in> topLevelEventTypeOf ` set types then {i} else {})) \<and>
   ((\<forall>ty \<in> set types. registeredAtRoot i (topLevelEventTypeOf ty) s) \<longrightarrow>
      addRootEventTypesForComponentInstance i types s = s) \<and>
   addRootEventTypesForComponentInstance i types (addRootEventTypesForComponentInstance i types s)
     = addRootEventTypesForComponentInstance i types s"
  by (simp add: addStatic_present_instances addStatic_registered_id addStatic_registers
      addStatic_registry)

theorem static_registration_is_idempotent_witness:
  "registeredAtRoot 1 ''click'' clickRegistered \<and>
   addRootEventTypesForComponentInstance 1 [EventTypeString ''click''] clickRegistered
     = clickRegistered \<and>
   ''click'' \<in> set (rootEventTypesSetOf 1 clickUnmounted) \<and>
   instanceObjects (addRootEventTypesForComponentInstance 1 [EventTypeString ''click'']
                      clickUnmounted)
     = instanceObjects clickUnmounted"
proof -
  have 1: "registeredAtRoot 1 ''click'' clickRegistered"
    by (simp add: clickRegistered_def initialEngine_def rootEventTypesSetOf_def Let_def
        ensureRootEventComponentInstances_def setRootEventTypes_def setAdd_def
        addToRootEventComponentInstances_def registeredAtRoot_def)
  then have r: "\<forall>ty \<in> set [EventTypeString ''click''].
               registeredAtRoot 1 (topLevelEventTypeOf ty) clickRegistered"
    by simp
  have 2: "''click'' \<in> set (rootEventTypesSetOf 1 clickUnmounted)"
    by (simp add: clickUnmounted_eq rootEventTypesSetOf_def)
  then have p: "\<forall>ty \<in> set [EventTypeString ''click''].
               topLevelEventTypeOf ty \<in> set (rootEventTypesSetOf 1 clickUnmounted)"
    by simp
  from static_registration_is_idempotent[of "[EventTypeString ''click'']" 1 clickRegistered] r
  have a: "addRootEventTypesForComponentInstance 1 [EventTypeString ''click''] clickRegistered
             = clickRegistered"
    by blast
  from static_registration_is_idempotent[of "[EventTypeString ''click'']" 1 clickUnmounted] p
  have b: "instanceObjects (addRootEventTypesForComponentInstance 1 [EventTypeString ''click'']
                              clickUnmounted)
             = instanceObjects clickUnmounted"
    by blast
  from 1 a 2 b show ?thesis by simp
qed

subsection \<open>The loops of a dispatch\<close>

lemma extendsEffects_refl: "extendsEffects s s"
  by (simp add: extendsEffects_def)

lemma effectsSince_self: "effectsSince s s = []"
  by (simp add: effectsSince_def)

lemma effectsSince_append: "effects s' = effects s @ es \<Longrightarrow> effectsSince s s' = es"
  by (simp add: effectsSince_def)

lemma extendsEffects_effects: "extendsEffects s s' \<Longrightarrow> effects s' = effects s @ effectsSince s s'"
  by (auto simp: extendsEffects_def effectsSince_def)

lemma effectsSince_trans:
  assumes "extendsEffects s s1" and "extendsEffects s1 s2"
  shows "extendsEffects s s2" and "effectsSince s s2 = effectsSince s s1 @ effectsSince s1 s2"
proof -
  from assms obtain es1 es2 where e: "effects s1 = effects s @ es1" "effects s2 = effects s1 @ es2"
    by (auto simp: extendsEffects_def)
  then have e2: "effects s2 = effects s @ (es1 @ es2)" by simp
  then show "extendsEffects s s2" unfolding extendsEffects_def by blast
  show "effectsSince s s2 = effectsSince s s1 @ effectsSince s1 s2"
    using e e2 by (simp add: effectsSince_def)
qed

lemma sameResponders_refl: "sameResponders s s"
  by (simp add: sameResponders_def)

lemma sameResponders_trans: "sameResponders s s1 \<Longrightarrow> sameResponders s1 s2 \<Longrightarrow> sameResponders s s2"
  by (simp add: sameResponders_def)

lemma quietStep_iff:
  "quietStep s s' \<longleftrightarrow>
     sameResponders s s' \<and> extendsEffects s s' \<and> (\<forall>e \<in> set (effectsSince s s'). \<not> isPhaseEffect e)"
  by (auto simp: quietStep_def sameResponders_def extendsEffects_def effectsSince_def)

lemma invocationsOf_append:
  "invocationsOf k (es1 @ es2) = invocationsOf k es1 @ invocationsOf k es2"
  by (induction k es1 rule: invocationsOf.induct) simp_all

lemma invocationsOf_quiet:
  "\<forall>e \<in> set es. \<not> isPhaseEffect e \<Longrightarrow> phaseCallback k \<Longrightarrow> invocationsOf k es = []"
  by (induction k es rule: invocationsOf.induct) auto

lemma invocationsOf_mem:
  "i \<in> set (invocationsOf k es) \<longleftrightarrow> (\<exists>ow. Invoked k i ow \<in> set es)"
  by (induction k es rule: invocationsOf.induct) auto

lemma firingOrder_cong:
  "sameResponders s s' \<Longrightarrow> firingOrder s' sel pr xs = firingOrder s sel pr xs"
  by (induction xs arbitrary: pr) (simp_all add: sameResponders_def Let_def)

lemma phaseOnly_Nil: "phaseOnly kind xs []"
  by (simp add: phaseOnly_def)

lemma phaseOnly_quiet: "\<forall>e \<in> set es. \<not> isPhaseEffect e \<Longrightarrow> phaseOnly kind xs es"
  unfolding phaseOnly_def by fastforce

lemma phaseOnly_append:
  "phaseOnly kind xs (es1 @ es2) \<longleftrightarrow> phaseOnly kind xs es1 \<and> phaseOnly kind xs es2"
  unfolding phaseOnly_def set_append Un_iff by blast

lemma phaseOnly_Invoked:
  "phaseOnly kind xs (Invoked kind i ow # es) \<longleftrightarrow>
     (phaseCallback kind \<longrightarrow> i \<in> set xs) \<and> phaseOnly kind xs es"
  unfolding phaseOnly_def by auto

lemma phaseOnly_mono: "set xs \<subseteq> set ys \<Longrightarrow> phaseOnly kind xs es \<Longrightarrow> phaseOnly kind ys es"
  unfolding phaseOnly_def by blast

lemma phaseOnly_Cons_list: "phaseOnly kind rest es \<Longrightarrow> phaseOnly kind (i # rest) es"
  by (rule phaseOnly_mono[of rest]) auto

text \<open>One callback of a phase, invoked and run.\<close>

lemma invoked_phase_callback:
  assumes "quietRunner run"
    and "invokeCallback run kind i cb (s\<lparr>currentInstance := Some i\<rparr>) = (res, s2)"
  shows "sameResponders s s2" and "extendsEffects s s2"
    and "\<exists>es. effectsSince s s2 = Invoked kind i (currentOwner s) # es \<and> (\<forall>e \<in> set es. \<not> isPhaseEffect e)"
proof -
  let ?s1 = "s\<lparr>currentInstance := Some i,
               effects := effects s @ [Invoked kind i (currentOwner s)]\<rparr>"
  have run: "run cb ?s1 = (res, s2)" using assms(2) by (simp add: invokeCallback_def)
  have "quietStep ?s1 (snd (run cb ?s1))"
    using assms(1) by (simp add: quietRunner_def quietAction_def)
  then have q: "quietStep ?s1 s2" using run by simp
  then have sr: "sameResponders ?s1 s2" and ex: "extendsEffects ?s1 s2"
    and np: "\<forall>e \<in> set (effectsSince ?s1 s2). \<not> isPhaseEffect e"
    by (simp_all add: quietStep_iff)
  have "sameResponders s ?s1" by (simp add: sameResponders_def)
  then show "sameResponders s s2" using sr by (rule sameResponders_trans)
  have ex0: "extendsEffects s ?s1" by (simp add: extendsEffects_def)
  show "extendsEffects s s2" using ex0 ex by (rule effectsSince_trans(1))
  have "effectsSince s s2 = effectsSince s ?s1 @ effectsSince ?s1 s2"
    using ex0 ex by (rule effectsSince_trans(2))
  moreover have "effectsSince s ?s1 = [Invoked kind i (currentOwner s)]"
    by (simp add: effectsSince_def)
  ultimately show "\<exists>es. effectsSince s s2 = Invoked kind i (currentOwner s) # es \<and>
                       (\<forall>e \<in> set es. \<not> isPhaseEffect e)"
    using np by simp
qed

lemma targetPhaseLoop_trace:
  assumes run: "quietRunner run" and kind: "phaseCallback kind"
  shows "targetPhaseLoop run kind sel pr xs s = (res, s') \<Longrightarrow>
         sameResponders s s' \<and> extendsEffects s s' \<and>
         phaseOnly kind xs (effectsSince s s') \<and>
         (res = Inr () \<longrightarrow> invocationsOf kind (effectsSince s s') = firingOrder s sel pr xs)"
proof (induction xs arbitrary: pr s)
  case Nil
  then show ?case
    by (auto simp: sameResponders_refl extendsEffects_refl effectsSince_self phaseOnly_Nil)
next
  case (Cons i rest)
  let ?r = "responder (instanceObjects s i)"
  let ?rd = "responderObjects s ?r"
  let ?pr' = "if stopLocalPropagation ?rd then setAdd ?r pr else pr"
  show ?case
  proof (cases "stopLocalPropagation ?rd \<and> ?r \<in> set pr")
    case True
    with Cons.prems have "targetPhaseLoop run kind sel pr rest s = (res, s')"
      by (simp add: Let_def)
    from Cons.IH[OF this] True show ?thesis by (auto simp: Let_def intro: phaseOnly_Cons_list)
  next
    case False
    show ?thesis
    proof (cases "sel ?rd")
      case None
      with False Cons.prems have "targetPhaseLoop run kind sel ?pr' rest s = (res, s')"
        by (auto simp add: Let_def split: if_splits)
      from Cons.IH[OF this] False None show ?thesis by (auto simp: Let_def intro: phaseOnly_Cons_list)
    next
      case (Some cb)
      obtain rc s2 where cb: "invokeCallback run kind i cb (s\<lparr>currentInstance := Some i\<rparr>) = (rc, s2)"
        by (cases "invokeCallback run kind i cb (s\<lparr>currentInstance := Some i\<rparr>)")
      note ic = invoked_phase_callback[OF run cb]
      from ic(3) obtain es where es: "effectsSince s s2 = Invoked kind i (currentOwner s) # es"
        "\<forall>e \<in> set es. \<not> isPhaseEffect e" by blast
      have head: "phaseOnly kind (i # rest) (Invoked kind i (currentOwner s) # es)"
        using es(2) by (simp add: phaseOnly_Invoked phaseOnly_quiet)
      show ?thesis
      proof (cases rc)
        case (Inl e)
        with Cons.prems False Some cb have "res = Inl e" "s' = s2"
          by (simp_all add: Let_def andThen_def)
        then show ?thesis using ic(1,2) es(1) head by simp
      next
        case (Inr u)
        with Cons.prems False Some cb
        have loop: "targetPhaseLoop run kind sel ?pr' rest s2 = (res, s')"
          by (simp add: Let_def andThen_def)
        note ih = Cons.IH[OF loop]
        from ih have sr: "sameResponders s2 s'" and ex: "extendsEffects s2 s'" by simp_all
        have since: "effectsSince s s' = (Invoked kind i (currentOwner s) # es) @ effectsSince s2 s'"
          using effectsSince_trans(2)[OF ic(2) ex] es(1) by simp
        have 1: "sameResponders s s'" using ic(1) sr by (rule sameResponders_trans)
        have 2: "extendsEffects s s'" using ic(2) ex by (rule effectsSince_trans(1))
        have 3: "phaseOnly kind (i # rest) (effectsSince s s')"
          unfolding since phaseOnly_append using ih head by (simp add: phaseOnly_Cons_list)
        have 4: "res = Inr () \<longrightarrow>
                 invocationsOf kind (effectsSince s s') = firingOrder s sel pr (i # rest)"
        proof
          assume "res = Inr ()"
          with ih have "invocationsOf kind (effectsSince s2 s') = firingOrder s2 sel ?pr' rest"
            by simp
          also have "\<dots> = firingOrder s sel ?pr' rest"
            using ic(1) by (rule firingOrder_cong)
          finally show "invocationsOf kind (effectsSince s s') = firingOrder s sel pr (i # rest)"
            unfolding since using False Some invocationsOf_quiet[OF es(2) kind]
            by (auto simp add: invocationsOf_append Let_def)
        qed
        from 1 2 3 4 show ?thesis by blast
      qed
    qed
  qed
qed

lemma rootPhaseLoop_trace:
  assumes run: "quietRunner run"
  shows "rootPhaseLoop run xs s = (res, s') \<Longrightarrow>
         sameResponders s s' \<and> extendsEffects s s' \<and>
         phaseOnly OnRootEvent xs (effectsSince s s') \<and>
         ((\<exists>k i ow. Invoked k i ow \<in> set (effectsSince s s') \<and> phaseCallback k) \<longrightarrow>
          (\<exists>i. Invoked OnRootEvent i (currentOwner s) \<in> set (effectsSince s s')))"
proof (induction xs arbitrary: s)
  case Nil
  then show ?case
    by (auto simp: sameResponders_refl extendsEffects_refl effectsSince_self phaseOnly_Nil)
next
  case (Cons i rest)
  show ?case
  proof (cases "onRootEvent (responderObjects s (responder (instanceObjects s i)))")
    case None
    with Cons.prems have "rootPhaseLoop run rest s = (res, s')" by simp
    from Cons.IH[OF this] show ?thesis by (auto intro: phaseOnly_Cons_list)
  next
    case (Some cb)
    obtain rc s2 where cb: "invokeCallback run OnRootEvent i cb (s\<lparr>currentInstance := Some i\<rparr>) = (rc, s2)"
      by (cases "invokeCallback run OnRootEvent i cb (s\<lparr>currentInstance := Some i\<rparr>)")
    note ic = invoked_phase_callback[OF run cb]
    from ic(3) obtain es where es: "effectsSince s s2 = Invoked OnRootEvent i (currentOwner s) # es"
      "\<forall>e \<in> set es. \<not> isPhaseEffect e" by blast
    have head: "phaseOnly OnRootEvent (i # rest) (Invoked OnRootEvent i (currentOwner s) # es)"
      using es(2) by (simp add: phaseOnly_Invoked phaseOnly_quiet)
    show ?thesis
    proof (cases rc)
      case (Inl e)
      with Cons.prems Some cb have "res = Inl e" "s' = s2"
        by (simp_all add: andThen_def)
      moreover have "phaseOnly OnRootEvent (i # rest) (effectsSince s s2)"
        using head es(1) by simp
      moreover have "\<exists>j. Invoked OnRootEvent j (currentOwner s) \<in> set (effectsSince s s2)"
        using es(1) by auto
      ultimately show ?thesis using ic(1,2) by blast
    next
      case (Inr u)
      with Cons.prems Some cb have loop: "rootPhaseLoop run rest s2 = (res, s')"
        by (simp add: andThen_def)
      note ih = Cons.IH[OF loop]
      from ih have sr: "sameResponders s2 s'" and ex: "extendsEffects s2 s'" by simp_all
      have since: "effectsSince s s' = (Invoked OnRootEvent i (currentOwner s) # es) @ effectsSince s2 s'"
        using effectsSince_trans(2)[OF ic(2) ex] es(1) by simp
      have 1: "sameResponders s s'" using ic(1) sr by (rule sameResponders_trans)
      have 2: "extendsEffects s s'" using ic(2) ex by (rule effectsSince_trans(1))
      have 3: "phaseOnly OnRootEvent (i # rest) (effectsSince s s')"
        unfolding since phaseOnly_append using ih head by (simp add: phaseOnly_Cons_list)
      have 4: "\<exists>j. Invoked OnRootEvent j (currentOwner s) \<in> set (effectsSince s s')"
        unfolding since by auto
      from 1 2 3 4 show ?thesis by blast
    qed
  qed
qed

subsection \<open>Ownership\<close>

text \<open>
  C7. \<open>releaseOwnership\<close> never returns true. Inside a cycle, when the current
  instance is not the owner it returns false and leaves the engine as it is (the slot is
  not cleared, no listener is notified); when the current instance is the owner it clears
  the slot, runs the notification of the listeners once, and returns false if no listener
  throws; with no listener registered the cleared slot is the only change.
\<close>

theorem releaseOwnership_returns_false:
  "fst (releaseOwnership run s) \<noteq> Inr True \<and>
   (currentEventQueue s \<noteq> None \<and> currentInstance s \<noteq> None \<and>
    currentOwner s \<noteq> currentInstance s \<longrightarrow>
      releaseOwnership run s = (Inr False, s)) \<and>
   (currentEventQueue s \<noteq> None \<and> currentInstance s \<noteq> None \<and>
    currentOwner s = currentInstance s \<longrightarrow>
      releaseOwnership run s =
        (case triggerOwnershipListeners run (s\<lparr>currentOwner := None\<rparr>) of
           (Inl e, s') \<Rightarrow> (Inl e, s')
         | (Inr _, s') \<Rightarrow> (Inr False, s'))) \<and>
   (currentEventQueue s \<noteq> None \<and> currentInstance s \<noteq> None \<and>
    currentOwner s = currentInstance s \<and> ownershipChangeListeners s = [] \<longrightarrow>
      releaseOwnership run s = (Inr False, s\<lparr>currentOwner := None\<rparr>))"
  by (auto simp add: releaseOwnership_def andThen_def validateResponderContext_def
      triggerOwnershipListeners_def tryFinally_def Let_def
      split: sum.splits prod.splits)

lemma ownerInCycle_facts:
  "currentEventQueue ownerInCycle \<noteq> None"
  "currentInstance ownerInCycle \<noteq> None"
  "currentOwner ownerInCycle = currentInstance ownerInCycle"
  by (simp_all add: ownerInCycle_def mountEventResponder_def initialEngine_def)

lemma ownerInCycle_notification:
  "triggerOwnershipListeners (invoke (Suc 0)) (ownerInCycle\<lparr>currentOwner := None\<rparr>) =
     (Inr (), ownerInCycle\<lparr>currentOwner := None,
                effects := [Invoked OnOwnershipChange 2 None]\<rparr>)"
  by (simp add: ownerInCycle_def mountEventResponder_def initialEngine_def
      listeningResponder_def inertResponder_def setAdd_def
      triggerOwnershipListeners_def tryFinally_def Let_def andThen_def invokeCallback_def
      discardResult_def hasOwnership_def validateResponderContext_def createEventQueue_def)

theorem releaseOwnership_returns_false_witness:
  "currentOwner ownerInCycle = currentInstance ownerInCycle \<and>
   releaseOwnership (invoke (Suc 0)) ownerInCycle =
     (Inr False, ownerInCycle\<lparr>currentOwner := None,
                   effects := [Invoked OnOwnershipChange 2 None]\<rparr>)"
proof -
  have "releaseOwnership (invoke (Suc 0)) ownerInCycle =
          (case triggerOwnershipListeners (invoke (Suc 0)) (ownerInCycle\<lparr>currentOwner := None\<rparr>) of
             (Inl e, s') \<Rightarrow> (Inl e, s')
           | (Inr _, s') \<Rightarrow> (Inr False, s'))"
    using releaseOwnership_returns_false[of "invoke (Suc 0)" ownerInCycle] ownerInCycle_facts
    by blast
  then show ?thesis
    by (simp only: ownerInCycle_notification ownerInCycle_facts) simp
qed

subsection \<open>The context outside a cycle\<close>

lemma validate_outside:
  "currentEventQueue s = None \<or> currentInstance s = None \<Longrightarrow>
   andThen validateResponderContext f s = (Inl OutsideEventCycle, s)"
  by (auto simp: andThen_def validateResponderContext_def)

lemma context_operations_fault_outside_cycle:
  assumes "currentEventQueue s = None \<or> currentInstance s = None"
  shows "dispatchEvent ev lst d s = (Inl OutsideEventCycle, s)"
    and "isPositionWithinTouchHitTarget doc x y s = (Inl OutsideEventCycle, s)"
    and "isTargetWithinEventComponent t s = (Inl OutsideEventCycle, s)"
    and "addRootEventTypes doc types s = (Inl OutsideEventCycle, s)"
    and "removeRootEventTypes types s = (Inl OutsideEventCycle, s)"
    and "hasOwnership s = (Inl OutsideEventCycle, s)"
    and "requestOwnership run s = (Inl OutsideEventCycle, s)"
    and "releaseOwnership run s = (Inl OutsideEventCycle, s)"
    and "setTimeout func delay s = (Inl OutsideEventCycle, s)"
    and "clearTimeout timerId s = (Inl OutsideEventCycle, s)"
    and "getEventTargetsFromTarget tn qt qk s = (Inl OutsideEventCycle, s)"
  unfolding dispatchEvent_def isPositionWithinTouchHitTarget_def isTargetWithinEventComponent_def
    addRootEventTypes_def removeRootEventTypes_def hasOwnership_def requestOwnership_def
    releaseOwnership_def setTimeout_def clearTimeout_def getEventTargetsFromTarget_def
  using assms by (simp_all only: validate_outside)

text \<open>
  C4. Outside a cycle (no current event queue, no current instance) every operation of
  the responder context throws, as \<open>context_operations_fault_outside_cycle\<close> shows,
  but one: \<open>isTargetWithinElement\<close> does not validate the context and returns its
  answer.
\<close>

theorem isTargetWithinElement_outside_cycle:
  "currentEventQueue idleEngine = None \<and> currentInstance idleEngine = None \<and>
   isTargetWithinElement someNode someNode idleEngine = (Inr True, idleEngine)"
  by (simp add: idleEngine_def initialEngine_def someNode_def isTargetWithinElement_def)


subsection \<open>Ownership change on unmount\<close>

lemma mountedPair_eq:
  "mountedPair =
     (initialEngine (\<lambda>i. \<lparr>responder = i, rootEventTypes = None\<rparr>)
             (\<lambda>r. if r = 1 then requestingResponder
                   else if r = 2 then listeningResponder else inertResponder))
     \<lparr>ownershipChangeListeners := [2]\<rparr>"
  by (simp add: mountedPair_def mountEventResponder_def initialEngine_def requestingResponder_def
      listeningResponder_def inertResponder_def setAdd_def)

lemma press_dispatch:
  "dispatchEventForResponderEventSystem True (Suc (Suc 0)) ''press''
            (Some (Fiber 0 (EventComponent 1) [] None)) mountedPair =
   (Inr (), mountedPair\<lparr>currentOwner := Some 1, currentTimers := None,
              targetEventTypeCached := [[EventTypeString ''press''] \<mapsto> [''press'']],
              effects := [Invoked OnEvent 1 None, Invoked OnOwnershipChange 2 (Some 1)]\<rparr>)"
  by (simp add: mountedPair_eq initialEngine_def requestingResponder_def
      listeningResponder_def inertResponder_def setAdd_def
      dispatchEventForResponderEventSystem_def tryFinally_def andThen_def
      traverseAndHandleEventResponderInstances_def getTargetEventResponderInstances_def
      getTargetEventTypes_def getRootEventResponderInstances_def
      invokeCallback_def discardResult_def requestOwnership_def hasOwnership_def
      validateResponderContext_def triggerOwnershipListeners_def processEventQueue_def
      createEventQueue_def endCycle_def Let_def)

lemma unmount_after_press:
  "unmountEventResponder (Suc (Suc 0)) 1 afterPress =
   (Inl OutsideEventCycle,
    afterPress\<lparr>currentOwner := None,
       effects := [Invoked OnEvent 1 None, Invoked OnOwnershipChange 2 (Some 1),
                   Invoked OnOwnershipChange 2 None]\<rparr>)"
  unfolding afterPress_def press_dispatch
  by (simp add: mountedPair_eq initialEngine_def requestingResponder_def
      listeningResponder_def inertResponder_def
      unmountEventResponder_def tryFinally_def andThen_def
      invokeCallback_def discardResult_def hasOwnership_def
      validateResponderContext_def triggerOwnershipListeners_def Let_def)


text \<open>
  C8. The listener of instance 2 asks \<open>hasOwnership\<close> when it is notified. When
  instance 1 acquires ownership during a dispatch the notification runs inside the cycle
  and the listener's call returns. When instance 1, the owner, is unmounted, the
  notification runs after the cycle of \<open>onUnmount\<close> has been closed (or without a
  cycle): the listener is invoked with its instance current, its call of
  \<open>hasOwnership\<close> throws, and the unmount ends with that fault.
\<close>

theorem unmount_notification_faults:
  "fst (dispatchEventForResponderEventSystem True (Suc (Suc 0)) ''press''
          (Some (Fiber 0 (EventComponent 1) [] None)) mountedPair) = Inr () \<and>
   currentOwner afterPress = Some 1 \<and>
   currentEventQueue afterPress = None \<and>
   effects afterPress = [Invoked OnEvent 1 None, Invoked OnOwnershipChange 2 (Some 1)] \<and>
   fst (unmountEventResponder (Suc (Suc 0)) 1 afterPress) = Inl OutsideEventCycle \<and>
   effects (snd (unmountEventResponder (Suc (Suc 0)) 1 afterPress)) =
     [Invoked OnEvent 1 None, Invoked OnOwnershipChange 2 (Some 1),
      Invoked OnOwnershipChange 2 None]"
  by (simp only: unmount_after_press fst_conv snd_conv,
      simp only: afterPress_def press_dispatch fst_conv snd_conv,
      simp add: mountedPair_eq initialEngine_def)

subsection \<open>Finding the instances\<close>

lemma self_cache: "\<exists>c. s = s\<lparr>targetEventTypeCached := c\<rparr>"
  by (rule exI[of _ "targetEventTypeCached s"]) simp

lemma getTargetEventTypes_cache:
  "\<exists>c. snd (getTargetEventTypes tys s) = s\<lparr>targetEventTypeCached := c\<rparr>"
proof (cases "targetEventTypeCached s tys")
  case None
  then show ?thesis by (auto simp: getTargetEventTypes_def Let_def)
next
  case (Some a)
  then show ?thesis using self_cache[of s] by (simp add: getTargetEventTypes_def)
qed

lemma getTargetLoop:
  "getTargetEventResponderInstancesLoop ty f acc s = (xs, s') \<Longrightarrow>
   (\<exists>c. s' = s\<lparr>targetEventTypeCached := c\<rparr>) \<and>
   (currentOwner s = Some X \<longrightarrow> set xs \<subseteq> set acc \<union> {X})"
proof (induction ty f acc s arbitrary: xs s' rule: getTargetEventResponderInstancesLoop.induct)
  case (1 ty fid n cs r acc s)
  let ?step = "case n of
              EventComponent eventComponentInstance \<Rightarrow>
                if currentOwner s = None \<or> currentOwner s = Some eventComponentInstance
                then (case getTargetEventTypes
                             (targetEventTypes
                                (responderObjects s
                                   (responder (instanceObjects s eventComponentInstance)))) s of
                        (targetEventTypesSet, s') \<Rightarrow>
                          if ty \<in> set targetEventTypesSet
                          then (acc @ [eventComponentInstance], s')
                          else (acc, s'))
                else (acc, s)
            | _ \<Rightarrow> (acc, s)"
  obtain acc1 s1 where step: "?step = (acc1, s1)" by (cases ?step)
  have s1: "\<exists>c. s1 = s\<lparr>targetEventTypeCached := c\<rparr>"
  proof (cases n)
    case (EventComponent i)
    show ?thesis
    proof (cases "currentOwner s = None \<or> currentOwner s = Some i")
      case True
      obtain tys s2 where g: "getTargetEventTypes (targetEventTypes
                                (responderObjects s (responder (instanceObjects s i)))) s = (tys, s2)"
        by (cases "getTargetEventTypes (targetEventTypes
                                (responderObjects s (responder (instanceObjects s i)))) s")
      from getTargetEventTypes_cache[of "targetEventTypes
                                (responderObjects s (responder (instanceObjects s i)))" s] g
      have "\<exists>c. s2 = s\<lparr>targetEventTypeCached := c\<rparr>" by simp
      with step EventComponent True g show ?thesis by (auto split: if_splits)
    next
      case False
      with step EventComponent have "s1 = s" by auto
      then show ?thesis using self_cache[of s] by simp
    qed
  next
    case EventTargetWorkTag
    with step have "s1 = s" by simp
    then show ?thesis using self_cache[of s] by simp
  next
    case (HostComponent h)
    with step have "s1 = s" by simp
    then show ?thesis using self_cache[of s] by simp
  next
    case OtherWorkTag
    with step have "s1 = s" by simp
    then show ?thesis using self_cache[of s] by simp
  qed
  have acc1: "currentOwner s = Some X \<longrightarrow> set acc1 \<subseteq> set acc \<union> {X}"
    using step by (cases n) (auto split: if_splits prod.splits)
  show ?case
  proof (cases r)
    case None
    with "1.prems" step have "xs = acc1" "s' = s1" by simp_all
    with s1 acc1 show ?thesis by simp
  next
    case (Some p)
    with "1.prems" step have loop: "getTargetEventResponderInstancesLoop ty p acc1 s1 = (xs, s')"
      by simp
    from s1 obtain c where c: "s1 = s\<lparr>targetEventTypeCached := c\<rparr>" by blast
    have ih: "(\<exists>c. s' = s1\<lparr>targetEventTypeCached := c\<rparr>) \<and>
          (currentOwner s1 = Some X \<longrightarrow> set xs \<subseteq> set acc1 \<union> {X})"
      using "1.IH"[OF step[symmetric] Some loop] .
    from ih c have "\<exists>c. s' = s\<lparr>targetEventTypeCached := c\<rparr>" by auto
    moreover have "currentOwner s = Some X \<longrightarrow> set xs \<subseteq> set acc \<union> {X}"
      using ih c acc1 by auto
    ultimately show ?thesis by simp
  qed
qed

lemma getTargetEventResponderInstances_cache:
  assumes "getTargetEventResponderInstances ty fiber s = (xs, s0)"
  shows "\<exists>c. s0 = s\<lparr>targetEventTypeCached := c\<rparr>"
proof (cases fiber)
  case None
  with assms have "s0 = s" by (simp add: getTargetEventResponderInstances_def)
  then show ?thesis using self_cache[of s] by simp
next
  case (Some f)
  with assms getTargetLoop[of ty f "[]" s xs s0] show ?thesis
    by (simp add: getTargetEventResponderInstances_def)
qed

text \<open>The two filters by the owner.\<close>

lemma getTargetEventResponderInstances_owner:
  assumes "currentOwner s = Some X"
  shows "set (fst (getTargetEventResponderInstances ty fiber s)) \<subseteq> {X}"
proof (cases fiber)
  case None
  then show ?thesis by (simp add: getTargetEventResponderInstances_def)
next
  case (Some f)
  obtain xs s0 where l: "getTargetEventResponderInstancesLoop ty f [] s = (xs, s0)"
    by (cases "getTargetEventResponderInstancesLoop ty f [] s")
  from getTargetLoop[OF l, of X] assms have "set xs \<subseteq> {X}" by simp
  with Some l show ?thesis by (simp add: getTargetEventResponderInstances_def)
qed

lemma getRootEventResponderInstances_owner:
  assumes "currentOwner s = Some X"
  shows "set (getRootEventResponderInstances ty s) \<subseteq> {X}"
  using assms by (auto simp: getRootEventResponderInstances_def split: option.splits)

subsection \<open>The traversal\<close>

lemma invocationsOf_other:
  assumes "phaseOnly k xs es" and "phaseCallback k'" and "k' \<noteq> k"
  shows "invocationsOf k' es = []"
proof (rule ccontr)
  assume "invocationsOf k' es \<noteq> []"
  then obtain i where "i \<in> set (invocationsOf k' es)"
    by (cases "invocationsOf k' es") auto
  then obtain ow where "Invoked k' i ow \<in> set es"
    by (auto simp: invocationsOf_mem)
  with assms show False unfolding phaseOnly_def by blast
qed

lemma invocationsOf_phaseOnly:
  assumes "phaseOnly k xs es" and "phaseCallback k"
  shows "set (invocationsOf k es) \<subseteq> set xs"
proof
  fix i
  assume "i \<in> set (invocationsOf k es)"
  then obtain ow where "Invoked k i ow \<in> set es"
    using invocationsOf_mem[of i k es] by blast
  with assms show "i \<in> set xs" unfolding phaseOnly_def by blast
qed

lemma onlyOn_append: "onlyOn X (es1 @ es2) \<longleftrightarrow> onlyOn X es1 \<and> onlyOn X es2"
  unfolding onlyOn_def set_append Un_iff by blast

lemma ownedBy_append: "ownedBy X (es1 @ es2) \<longleftrightarrow> ownedBy X es1 \<and> ownedBy X es2"
  unfolding ownedBy_def set_append Un_iff by blast

lemma onlyOn_Nil: "onlyOn X []"
  by (simp add: onlyOn_def)

lemma phaseOnly_onlyOn: "phaseOnly k xs es \<Longrightarrow> set xs \<subseteq> {X} \<Longrightarrow> onlyOn X es"
  unfolding phaseOnly_def onlyOn_def by blast

lemma onlyOn_quiet: "\<forall>e \<in> set es. \<not> isPhaseEffect e \<Longrightarrow> onlyOn X es"
  unfolding onlyOn_def by fastforce

text \<open>The root phase under an owner.\<close>

lemma rootPhase_owner:
  assumes run: "quietRunner run"
    and loop: "rootPhaseLoop run (getRootEventResponderInstances ty s) s = (res, s')"
    and owned: "ownedBy X (effectsSince s s')"
  shows "onlyOn X (effectsSince s s')"
proof -
  note t = rootPhaseLoop_trace[OF run loop]
  from t have po: "phaseOnly OnRootEvent (getRootEventResponderInstances ty s) (effectsSince s s')"
    by simp
  show ?thesis
  proof (cases "currentOwner s = Some X")
    case True
    then have "set (getRootEventResponderInstances ty s) \<subseteq> {X}"
      by (rule getRootEventResponderInstances_owner)
    with po show ?thesis by (rule phaseOnly_onlyOn)
  next
    case False
    have none: "\<not> (\<exists>k i ow. Invoked k i ow \<in> set (effectsSince s s') \<and> phaseCallback k)"
    proof
      assume "\<exists>k i ow. Invoked k i ow \<in> set (effectsSince s s') \<and> phaseCallback k"
      with t obtain i where "Invoked OnRootEvent i (currentOwner s) \<in> set (effectsSince s s')"
        by blast
      with owned have "currentOwner s = Some X" unfolding ownedBy_def by fastforce
      with False show False by contradiction
    qed
    then show ?thesis unfolding onlyOn_def by blast
  qed
qed

lemma traverse_trace:
  assumes run: "quietRunner run"
    and gt: "getTargetEventResponderInstances ty fiber s = (insts, s0)"
    and tr: "traverseAndHandleEventResponderInstances run ty fiber s = (res, s')"
  shows "sameResponders s s' \<and> extendsEffects s s' \<and>
         (res = Inr () \<longrightarrow>
            invocationsOf OnEventCapture (effectsSince s s')
              = firingOrder s onEventCapture [] (rev insts) \<and>
            invocationsOf OnEvent (effectsSince s s') = firingOrder s onEvent [] insts) \<and>
         set (invocationsOf OnEventCapture (effectsSince s s')) \<subseteq> set insts \<and>
         set (invocationsOf OnEvent (effectsSince s s')) \<subseteq> set insts \<and>
         (currentOwner s = Some X \<longrightarrow> ownedBy X (effectsSince s s') \<longrightarrow>
            onlyOn X (effectsSince s s'))"
proof -
  from getTargetEventResponderInstances_cache[OF gt]
  obtain c where s0: "s0 = s\<lparr>targetEventTypeCached := c\<rparr>" by blast
  have sr0: "sameResponders s s0" by (simp add: s0 sameResponders_def)
  have eff0: "effects s0 = effects s" by (simp add: s0)
  have since0: "\<And>t. effectsSince s t = effectsSince s0 t" by (simp add: effectsSince_def eff0)
  have ext0: "\<And>t. extendsEffects s0 t \<Longrightarrow> extendsEffects s t" by (simp add: extendsEffects_def eff0)
  have own0: "currentOwner s0 = currentOwner s" by (simp add: s0)
  have instsX: "currentOwner s = Some X \<Longrightarrow> set insts \<subseteq> {X}" for X
    using getTargetEventResponderInstances_owner[of s X ty fiber] gt by simp
  obtain r1 s1 where cap: "targetPhaseLoop run OnEventCapture onEventCapture [] (rev insts) s0 = (r1, s1)"
    by (cases "targetPhaseLoop run OnEventCapture onEventCapture [] (rev insts) s0")
  from targetPhaseLoop_trace[OF run _ cap]
  have c1: "sameResponders s0 s1" and c2: "extendsEffects s0 s1"
    and c3: "phaseOnly OnEventCapture (rev insts) (effectsSince s0 s1)"
    and c4: "r1 = Inr () \<longrightarrow> invocationsOf OnEventCapture (effectsSince s0 s1)
               = firingOrder s0 onEventCapture [] (rev insts)"
    by simp_all
  have c5: "currentOwner s = Some X \<longrightarrow> onlyOn X (effectsSince s0 s1)"
  proof
    assume "currentOwner s = Some X"
    then have "set (rev insts) \<subseteq> {X}" using instsX[of X] by simp
    with c3 show "onlyOn X (effectsSince s0 s1)" by (rule phaseOnly_onlyOn)
  qed
  have c6: "set (invocationsOf OnEventCapture (effectsSince s0 s1)) \<subseteq> set insts"
    using invocationsOf_phaseOnly[OF c3] by simp
  have c7: "invocationsOf OnEvent (effectsSince s0 s1) = []"
    using c3 by (rule invocationsOf_other) simp_all
  show ?thesis
  proof (cases r1)
    case (Inl e)
    with tr gt cap have "res = Inl e" "s' = s1"
      by (simp_all add: traverseAndHandleEventResponderInstances_def andThen_def)
    then have res: "res \<noteq> Inr ()" and eq: "effectsSince s s' = effectsSince s0 s1"
      and sr: "sameResponders s s'" and ex: "extendsEffects s s'"
      using sameResponders_trans[OF sr0 c1] ext0[OF c2] by (simp_all add: since0)
    have "set (invocationsOf OnEvent (effectsSince s0 s1)) \<subseteq> set insts"
      using c7 by simp
    then show ?thesis
      unfolding eq using res sr ex c5 c6 by blast
  next
    case (Inr u1)
    obtain r2 s2 where bub: "targetPhaseLoop run OnEvent onEvent [] insts s1 = (r2, s2)"
      by (cases "targetPhaseLoop run OnEvent onEvent [] insts s1")
    from targetPhaseLoop_trace[OF run _ bub]
    have b1: "sameResponders s1 s2" and b2: "extendsEffects s1 s2"
      and b3: "phaseOnly OnEvent insts (effectsSince s1 s2)"
      and b4: "r2 = Inr () \<longrightarrow> invocationsOf OnEvent (effectsSince s1 s2)
                 = firingOrder s1 onEvent [] insts"
      by simp_all
    have b5: "currentOwner s = Some X \<longrightarrow> onlyOn X (effectsSince s1 s2)"
    proof
      assume "currentOwner s = Some X"
      then have "set insts \<subseteq> {X}" using instsX[of X] by simp
      with b3 show "onlyOn X (effectsSince s1 s2)" by (rule phaseOnly_onlyOn)
    qed
    have b6: "set (invocationsOf OnEvent (effectsSince s1 s2)) \<subseteq> set insts"
      using invocationsOf_phaseOnly[OF b3] by simp
    have b7: "invocationsOf OnEventCapture (effectsSince s1 s2) = []"
      using b3 by (rule invocationsOf_other) simp_all
    have sr2: "sameResponders s s2"
      using sameResponders_trans[OF sr0 c1] b1 by (rule sameResponders_trans)
    have ext2: "extendsEffects s0 s2" using c2 b2 by (rule effectsSince_trans(1))
    have since2: "effectsSince s0 s2 = effectsSince s0 s1 @ effectsSince s1 s2"
      using c2 b2 by (rule effectsSince_trans(2))
    show ?thesis
    proof (cases r2)
      case (Inl e)
      with tr gt cap bub Inr have "res = Inl e" "s' = s2"
        by (simp_all add: traverseAndHandleEventResponderInstances_def andThen_def)
      then have res: "res \<noteq> Inr ()"
        and eq: "effectsSince s s' = effectsSince s0 s1 @ effectsSince s1 s2"
        and sr: "sameResponders s s'" and ex: "extendsEffects s s'"
        using sr2 ext0[OF ext2] by (simp_all add: since0 since2)
      have o: "currentOwner s = Some X \<longrightarrow> onlyOn X (effectsSince s s')"
        using c5 b5 by (simp add: eq onlyOn_append)
      have i1: "set (invocationsOf OnEventCapture (effectsSince s s')) \<subseteq> set insts"
        using c6 b7 by (simp add: eq invocationsOf_append)
      have i2: "set (invocationsOf OnEvent (effectsSince s s')) \<subseteq> set insts"
        using c7 b6 by (simp add: eq invocationsOf_append)
      show ?thesis
        using res sr ex o i1 i2 by blast
    next
      case (Inr u2)
      with tr gt cap bub \<open>r1 = Inr u1\<close>
      have root: "rootPhaseLoop run (getRootEventResponderInstances ty s2) s2 = (res, s')"
        by (simp add: traverseAndHandleEventResponderInstances_def andThen_def)
      from rootPhaseLoop_trace[OF run root]
      have r1': "sameResponders s2 s'" and r2': "extendsEffects s2 s'"
        and r3: "phaseOnly OnRootEvent (getRootEventResponderInstances ty s2) (effectsSince s2 s')"
        by simp_all
      have ext3: "extendsEffects s0 s'" using ext2 r2' by (rule effectsSince_trans(1))
      have since3: "effectsSince s0 s' = effectsSince s0 s1 @ effectsSince s1 s2 @ effectsSince s2 s'"
        using effectsSince_trans(2)[OF ext2 r2'] since2 by simp
      have sr3: "sameResponders s s'" using sr2 r1' by (rule sameResponders_trans)
      have cap_inv: "invocationsOf OnEventCapture (effectsSince s s')
                       = firingOrder s onEventCapture [] (rev insts)"
      proof -
        have "invocationsOf OnEventCapture (effectsSince s1 s2) = []"
          using b3 by (rule invocationsOf_other) simp_all
        moreover have "invocationsOf OnEventCapture (effectsSince s2 s') = []"
          using r3 by (rule invocationsOf_other) simp_all
        moreover have "invocationsOf OnEventCapture (effectsSince s0 s1)
                         = firingOrder s onEventCapture [] (rev insts)"
          using c4 \<open>r1 = Inr u1\<close> firingOrder_cong[OF sr0] by simp
        ultimately show ?thesis by (simp add: since0 since3 invocationsOf_append)
      qed
      have bub_inv: "invocationsOf OnEvent (effectsSince s s') = firingOrder s onEvent [] insts"
      proof -
        have "invocationsOf OnEvent (effectsSince s0 s1) = []"
          using c3 by (rule invocationsOf_other) simp_all
        moreover have "invocationsOf OnEvent (effectsSince s2 s') = []"
          using r3 by (rule invocationsOf_other) simp_all
        moreover have "invocationsOf OnEvent (effectsSince s1 s2) = firingOrder s onEvent [] insts"
          using b4 Inr firingOrder_cong[OF sameResponders_trans[OF sr0 c1]] by simp
        ultimately show ?thesis by (simp add: since0 since3 invocationsOf_append)
      qed
      have owner: "currentOwner s = Some X \<longrightarrow> ownedBy X (effectsSince s s') \<longrightarrow>
                     onlyOn X (effectsSince s s')"
      proof (intro impI)
        assume o: "currentOwner s = Some X" and ob: "ownedBy X (effectsSince s s')"
        from ob have "ownedBy X (effectsSince s2 s')"
          by (simp add: since0 since3 ownedBy_append)
        with run root have "onlyOn X (effectsSince s2 s')" by (rule rootPhase_owner)
        with c5 b5 o show "onlyOn X (effectsSince s s')"
          by (simp add: since0 since3 onlyOn_append)
      qed
      have r4: "invocationsOf OnEventCapture (effectsSince s2 s') = []"
        using r3 by (rule invocationsOf_other) simp_all
      have r5: "invocationsOf OnEvent (effectsSince s2 s') = []"
        using r3 by (rule invocationsOf_other) simp_all
      have eq: "effectsSince s s' = effectsSince s0 s1 @ effectsSince s1 s2 @ effectsSince s2 s'"
        by (simp add: since0 since3)
      have i1: "set (invocationsOf OnEventCapture (effectsSince s s')) \<subseteq> set insts"
        using c6 b7 r4 by (simp add: eq invocationsOf_append)
      have i2: "set (invocationsOf OnEvent (effectsSince s s')) \<subseteq> set insts"
        using c7 b6 r5 by (simp add: eq invocationsOf_append)
      from sr3 ext0[OF ext3] cap_inv bub_inv owner i1 i2 show ?thesis
        by (intro conjI impI) (assumption | simp)+
    qed
  qed
qed

subsection \<open>Local propagation\<close>

lemma firingOrder_suppressed:
  "stopLocalPropagation (responderObjects s R) \<Longrightarrow> R \<in> set pr \<Longrightarrow>
   filter (\<lambda>i. responder (instanceObjects s i) = R) (firingOrder s sel pr xs) = []"
proof (induction xs arbitrary: pr)
  case Nil
  then show ?case by simp
next
  case (Cons i rest)
  let ?r = "responder (instanceObjects s i)"
  let ?pr' = "if stopLocalPropagation (responderObjects s ?r) then setAdd ?r pr else pr"
  have "R \<in> set ?pr'" using Cons.prems(2) by (simp add: setAdd_def)
  with Cons.prems(1)
  have ih2: "filter (\<lambda>i. responder (instanceObjects s i) = R) (firingOrder s sel ?pr' rest) = []"
    by (rule Cons.IH)
  have ih1: "filter (\<lambda>i. responder (instanceObjects s i) = R) (firingOrder s sel pr rest) = []"
    using Cons.prems by (rule Cons.IH)
  show ?case
  proof (cases "stopLocalPropagation (responderObjects s ?r) \<and> ?r \<in> set pr")
    case True
    then show ?thesis using ih1 by (simp add: Let_def)
  next
    case False
    with Cons.prems have "?r \<noteq> R" by auto
    with False ih2 show ?thesis by (auto simp add: Let_def split: option.splits)
  qed
qed

lemma firingOrder_first:
  "stopLocalPropagation (responderObjects s R) \<Longrightarrow> R \<notin> set pr \<Longrightarrow>
   responder (instanceObjects s x) = R \<Longrightarrow>
   \<forall>y \<in> set pre. responder (instanceObjects s y) \<noteq> R \<Longrightarrow>
   filter (\<lambda>i. responder (instanceObjects s i) = R) (firingOrder s sel pr (pre @ x # post))
     = (case sel (responderObjects s R) of None \<Rightarrow> [] | Some _ \<Rightarrow> [x])"
proof (induction pre arbitrary: pr)
  case Nil
  have "R \<in> set (setAdd R pr)" by (simp add: setAdd_def)
  with Nil.prems(1)
  have "filter (\<lambda>i. responder (instanceObjects s i) = R) (firingOrder s sel (setAdd R pr) post) = []"
    by (rule firingOrder_suppressed)
  with Nil.prems show ?case
    by (cases "sel (responderObjects s R)") (auto simp add: Let_def)
next
  case (Cons y pre)
  let ?r = "responder (instanceObjects s y)"
  let ?pr' = "if stopLocalPropagation (responderObjects s ?r) then setAdd ?r pr else pr"
  have ne: "?r \<noteq> R" using Cons.prems(4) by simp
  then have "R \<notin> set ?pr'" using Cons.prems(2) by (simp add: setAdd_def)
  with Cons.prems have ih2:
    "filter (\<lambda>i. responder (instanceObjects s i) = R) (firingOrder s sel ?pr' (pre @ x # post))
       = (case sel (responderObjects s R) of None \<Rightarrow> [] | Some _ \<Rightarrow> [x])"
    by (intro Cons.IH) simp_all
  from Cons.prems have ih1:
    "filter (\<lambda>i. responder (instanceObjects s i) = R) (firingOrder s sel pr (pre @ x # post))
       = (case sel (responderObjects s R) of None \<Rightarrow> [] | Some _ \<Rightarrow> [x])"
    by (intro Cons.IH) simp_all
  show ?case
  proof (cases "stopLocalPropagation (responderObjects s ?r) \<and> ?r \<in> set pr")
    case True
    then show ?thesis using ih1 by (simp add: Let_def)
  next
    case False
    then show ?thesis using ih2 ne
      by (cases "sel (responderObjects s ?r)") (auto simp add: Let_def)
  qed
qed

lemma firingOrder_plain:
  "\<forall>i \<in> set xs. stopLocalPropagation (responderOf s i) \<longrightarrow> responder (instanceObjects s i) \<notin> set pr \<Longrightarrow>
   distinct (map (\<lambda>i. responder (instanceObjects s i))
               (filter (\<lambda>i. stopLocalPropagation (responderOf s i)) xs)) \<Longrightarrow>
   firingOrder s sel pr xs = filter (\<lambda>i. sel (responderOf s i) \<noteq> None) xs"
proof (induction xs arbitrary: pr)
  case Nil
  then show ?case by simp
next
  case (Cons i rest)
  let ?r = "responder (instanceObjects s i)"
  let ?pr' = "if stopLocalPropagation (responderObjects s ?r) then setAdd ?r pr else pr"
  have 1: "\<forall>j \<in> set rest. stopLocalPropagation (responderOf s j) \<longrightarrow>
             responder (instanceObjects s j) \<notin> set ?pr'"
  proof (intro ballI impI)
    fix j assume j: "j \<in> set rest" "stopLocalPropagation (responderOf s j)"
    with Cons.prems(1) have a: "responder (instanceObjects s j) \<notin> set pr" by simp
    show "responder (instanceObjects s j) \<notin> set ?pr'"
    proof (cases "stopLocalPropagation (responderObjects s ?r)")
      case False
      with a show ?thesis by simp
    next
      case True
      then have "stopLocalPropagation (responderOf s i)" by (simp add: responderOf_def)
      with Cons.prems(2)
      have "?r \<notin> set (map (\<lambda>i. responder (instanceObjects s i))
                       (filter (\<lambda>i. stopLocalPropagation (responderOf s i)) rest))"
        by simp
      moreover have "responder (instanceObjects s j)
                       \<in> set (map (\<lambda>i. responder (instanceObjects s i))
                       (filter (\<lambda>i. stopLocalPropagation (responderOf s i)) rest))"
        using j by simp
      ultimately have "responder (instanceObjects s j) \<noteq> ?r" by metis
      with a True show ?thesis by (simp add: setAdd_def)
    qed
  qed
  have 2: "distinct (map (\<lambda>i. responder (instanceObjects s i))
               (filter (\<lambda>i. stopLocalPropagation (responderOf s i)) rest))"
    using Cons.prems(2) by (simp split: if_splits)
  have ih: "firingOrder s sel ?pr' rest = filter (\<lambda>i. sel (responderOf s i) \<noteq> None) rest"
    using 1 2 by (rule Cons.IH)
  have "\<not> (stopLocalPropagation (responderObjects s ?r) \<and> ?r \<in> set pr)"
    using Cons.prems(1) by (simp add: responderOf_def)
  then show ?case using ih
    by (cases "sel (responderObjects s ?r)") (auto simp add: Let_def responderOf_def)
qed
lemma effectsSince_from_empty: "effects s = [] \<Longrightarrow> effectsSince s s' = effects s'"
  by (simp add: effectsSince_def)


text \<open>
  C2. Let the target instances, nearest to the target first, hold an instance \<open>A\<close>
  and, farther from the target, an instance \<open>B\<close> of one responder \<open>R\<close> that stops
  local propagation, with no instance of \<open>R\<close> nearer than \<open>A\<close> or farther than
  \<open>B\<close>. In a traversal that no callback ends with an exception, \<open>onEvent\<close> of
  \<open>R\<close> is invoked on \<open>A\<close> and on no other instance of \<open>R\<close> (the bubble phase
  meets \<open>A\<close> first), and \<open>onEventCapture\<close> of \<open>R\<close> is invoked on \<open>B\<close> and on
  no other instance of \<open>R\<close> (the capture phase meets \<open>B\<close> first); a listener that
  the responder does not declare is not invoked at all. That \<open>A\<close> is invoked in the
  bubble phase after \<open>R\<close> was recorded in the capture phase is the reset of the set
  between the phases.
\<close>

theorem stopLocalPropagation_first_instance_only:
  assumes "getTargetEventResponderInstances topLevelType targetFiber s
             = (pre @ A # mid @ B # post, s0)"
    and "traverseAndHandleEventResponderInstances (invoke depth) topLevelType targetFiber s
             = (Inr (), s')"
    and "responder (instanceObjects s A) = R"
    and "responder (instanceObjects s B) = R"
    and "stopLocalPropagation (responderObjects s R)"
    and "\<forall>y \<in> set pre. responder (instanceObjects s y) \<noteq> R"
    and "\<forall>y \<in> set post. responder (instanceObjects s y) \<noteq> R"
  shows "filter (\<lambda>i. responder (instanceObjects s i) = R)
           (invocationsOf OnEvent (effectsSince s s'))
           = (case onEvent (responderObjects s R) of None \<Rightarrow> [] | Some _ \<Rightarrow> [A]) \<and>
         filter (\<lambda>i. responder (instanceObjects s i) = R)
           (invocationsOf OnEventCapture (effectsSince s s'))
           = (case onEventCapture (responderObjects s R) of None \<Rightarrow> [] | Some _ \<Rightarrow> [B])"
proof -
  from traverse_trace[OF quiet_invoke assms(1) assms(2)]
  have cap: "invocationsOf OnEventCapture (effectsSince s s')
               = firingOrder s onEventCapture [] (rev (pre @ A # mid @ B # post))"
    and bub: "invocationsOf OnEvent (effectsSince s s')
               = firingOrder s onEvent [] (pre @ A # mid @ B # post)"
    by simp_all
  have "filter (\<lambda>i. responder (instanceObjects s i) = R)
          (firingOrder s onEvent [] (pre @ A # (mid @ B # post)))
          = (case onEvent (responderObjects s R) of None \<Rightarrow> [] | Some _ \<Rightarrow> [A])"
    using assms(5) _ assms(3) assms(6) by (rule firingOrder_first) simp
  moreover have "filter (\<lambda>i. responder (instanceObjects s i) = R)
          (firingOrder s onEventCapture [] (rev post @ B # (rev mid @ A # rev pre)))
          = (case onEventCapture (responderObjects s R) of None \<Rightarrow> [] | Some _ \<Rightarrow> [B])"
    using assms(5) _ assms(4) by (rule firingOrder_first) (simp_all add: assms(7))
  ultimately show ?thesis by (simp add: cap bub)
qed

lemmas scenario_defs =
  initialEngine_def stoppingResponder_def inertResponder_def nestedFiber_def setAdd_def
  traverseAndHandleEventResponderInstances_def getTargetEventResponderInstances_def
  getTargetEventTypes_def getRootEventResponderInstances_def
  invokeCallback_def andThen_def tryFinally_def Let_def

lemma sharedDefinition_target:
  "getTargetEventResponderInstances ''press'' (Some nestedFiber) sharedDefinition
     = ([] @ 1 # [] @ 2 # [],
        sharedDefinition\<lparr>targetEventTypeCached := [[EventTypeString ''press''] \<mapsto> [''press'']]\<rparr>)"
  by (simp add: sharedDefinition_def scenario_defs)

lemma sharedDefinition_traverse:
  "fst (traverseAndHandleEventResponderInstances (invoke (Suc 0)) ''press'' (Some nestedFiber)
          sharedDefinition) = Inr ()"
  "effects (snd (traverseAndHandleEventResponderInstances (invoke (Suc 0)) ''press''
                   (Some nestedFiber) sharedDefinition))
     = [Invoked OnEventCapture 2 None, Invoked OnEvent 1 None]"
  by (simp_all add: sharedDefinition_def scenario_defs)

theorem stopLocalPropagation_first_instance_only_witness:
  "filter (\<lambda>i. responder (instanceObjects sharedDefinition i) = 5)
     (invocationsOf OnEvent
        (effectsSince sharedDefinition
           (snd (traverseAndHandleEventResponderInstances (invoke (Suc 0)) ''press''
                   (Some nestedFiber) sharedDefinition)))) = [1] \<and>
   filter (\<lambda>i. responder (instanceObjects sharedDefinition i) = 5)
     (invocationsOf OnEventCapture
        (effectsSince sharedDefinition
           (snd (traverseAndHandleEventResponderInstances (invoke (Suc 0)) ''press''
                   (Some nestedFiber) sharedDefinition)))) = [2]"
proof -
  let ?s' = "snd (traverseAndHandleEventResponderInstances (invoke (Suc 0)) ''press''
                   (Some nestedFiber) sharedDefinition)"
  have tr: "traverseAndHandleEventResponderInstances (invoke (Suc 0)) ''press''
                   (Some nestedFiber) sharedDefinition = (Inr (), ?s')"
    using sharedDefinition_traverse(1) by (simp add: prod_eq_iff)
  have r: "responder (instanceObjects sharedDefinition 1) = 5"
          "responder (instanceObjects sharedDefinition 2) = 5"
    by (simp_all add: sharedDefinition_def initialEngine_def)
  have st: "stopLocalPropagation (responderObjects sharedDefinition 5)"
    by (simp add: sharedDefinition_def initialEngine_def stoppingResponder_def inertResponder_def)
  have h: "onEvent (responderObjects sharedDefinition 5) = Some []"
          "onEventCapture (responderObjects sharedDefinition 5) = Some []"
    by (simp_all add: sharedDefinition_def initialEngine_def stoppingResponder_def inertResponder_def)
  from stopLocalPropagation_first_instance_only[OF sharedDefinition_target tr r st]
  show ?thesis by (simp add: h)
qed

text \<open>
  C3, as stated, fails where two target instances share a responder that stops local
  propagation: the capture phase invokes the farther one only, the bubble phase the
  nearer one only.
\<close>

theorem shared_definition_breaks_reversal:
  "invocationsOf OnEventCapture
     (effectsSince sharedDefinition
        (snd (traverseAndHandleEventResponderInstances (invoke (Suc 0)) ''press''
                (Some nestedFiber) sharedDefinition)))
   \<noteq> rev (invocationsOf OnEvent
         (effectsSince sharedDefinition
            (snd (traverseAndHandleEventResponderInstances (invoke (Suc 0)) ''press''
                    (Some nestedFiber) sharedDefinition))))"
proof -
  have e: "effects sharedDefinition = []" by (simp add: sharedDefinition_def initialEngine_def)
  show ?thesis
    by (simp only: effectsSince_from_empty[OF e] sharedDefinition_traverse(2)) simp
qed


text \<open>
  C3, amended. In a traversal that no callback ends with an exception, over target
  instances of which no two share a responder that stops local propagation and each has a
  responder that declares both \<open>onEventCapture\<close> and \<open>onEvent\<close> or neither, the
  instances invoked in the capture phase are, in order, the reverse of the instances
  invoked in the bubble phase.
\<close>

theorem capture_order_reverses_bubble_order:
  assumes "getTargetEventResponderInstances topLevelType targetFiber s = (insts, s0)"
    and "traverseAndHandleEventResponderInstances (invoke depth) topLevelType targetFiber s
           = (Inr (), s')"
    and "distinct (map (\<lambda>i. responder (instanceObjects s i))
                     (filter (\<lambda>i. stopLocalPropagation (responderOf s i)) insts))"
    and "\<forall>i \<in> set insts. (onEventCapture (responderOf s i) = None)
                             = (onEvent (responderOf s i) = None)"
  shows "invocationsOf OnEventCapture (effectsSince s s')
           = rev (invocationsOf OnEvent (effectsSince s s'))"
proof -
  from traverse_trace[OF quiet_invoke assms(1) assms(2)]
  have cap: "invocationsOf OnEventCapture (effectsSince s s')
               = firingOrder s onEventCapture [] (rev insts)"
    and bub: "invocationsOf OnEvent (effectsSince s s') = firingOrder s onEvent [] insts"
    by simp_all
  have "distinct (map (\<lambda>i. responder (instanceObjects s i))
                     (filter (\<lambda>i. stopLocalPropagation (responderOf s i)) (rev insts)))"
    using assms(3) by (simp add: rev_filter[symmetric] rev_map[symmetric] del: rev_filter rev_map)
  then have c: "firingOrder s onEventCapture [] (rev insts)
                  = filter (\<lambda>i. onEventCapture (responderOf s i) \<noteq> None) (rev insts)"
    by (intro firingOrder_plain) simp_all
  have b: "firingOrder s onEvent [] insts = filter (\<lambda>i. onEvent (responderOf s i) \<noteq> None) insts"
    using assms(3) by (intro firingOrder_plain) simp_all
  have "filter (\<lambda>i. onEventCapture (responderOf s i) \<noteq> None) (rev insts)
          = filter (\<lambda>i. onEvent (responderOf s i) \<noteq> None) (rev insts)"
    using assms(4) by (intro filter_cong) simp_all
  then show ?thesis by (simp add: cap bub c b rev_filter)
qed

lemma ownDefinitions_target:
  "getTargetEventResponderInstances ''press'' (Some nestedFiber) ownDefinitions
     = ([1, 2],
        ownDefinitions\<lparr>targetEventTypeCached := [[EventTypeString ''press''] \<mapsto> [''press'']]\<rparr>)"
  by (simp add: ownDefinitions_def scenario_defs)

lemma ownDefinitions_traverse:
  "fst (traverseAndHandleEventResponderInstances (invoke (Suc 0)) ''press'' (Some nestedFiber)
          ownDefinitions) = Inr ()"
  "effects (snd (traverseAndHandleEventResponderInstances (invoke (Suc 0)) ''press''
                   (Some nestedFiber) ownDefinitions))
     = [Invoked OnEventCapture 2 None, Invoked OnEventCapture 1 None,
        Invoked OnEvent 1 None, Invoked OnEvent 2 None]"
  by (simp_all add: ownDefinitions_def scenario_defs)

theorem capture_order_reverses_bubble_order_witness:
  "invocationsOf OnEvent
     (effectsSince ownDefinitions
        (snd (traverseAndHandleEventResponderInstances (invoke (Suc 0)) ''press''
                (Some nestedFiber) ownDefinitions))) = [1, 2] \<and>
   invocationsOf OnEventCapture
     (effectsSince ownDefinitions
        (snd (traverseAndHandleEventResponderInstances (invoke (Suc 0)) ''press''
                (Some nestedFiber) ownDefinitions))) = rev [1, 2]"
proof -
  let ?s' = "snd (traverseAndHandleEventResponderInstances (invoke (Suc 0)) ''press''
                   (Some nestedFiber) ownDefinitions)"
  have tr: "traverseAndHandleEventResponderInstances (invoke (Suc 0)) ''press''
                   (Some nestedFiber) ownDefinitions = (Inr (), ?s')"
    using ownDefinitions_traverse(1) by (simp add: prod_eq_iff)
  have d: "distinct (map (\<lambda>i. responder (instanceObjects ownDefinitions i))
                     (filter (\<lambda>i. stopLocalPropagation (responderOf ownDefinitions i)) [1, 2]))"
    by (simp add: ownDefinitions_def initialEngine_def responderOf_def)
  have p: "\<forall>i \<in> set [1, 2]. (onEventCapture (responderOf ownDefinitions i) = None)
                             = (onEvent (responderOf ownDefinitions i) = None)"
    by (simp add: ownDefinitions_def initialEngine_def responderOf_def stoppingResponder_def
        inertResponder_def)
  have e: "effects ownDefinitions = []" by (simp add: ownDefinitions_def initialEngine_def)
  have b: "invocationsOf OnEvent (effectsSince ownDefinitions ?s') = [1, 2]"
    by (simp only: effectsSince_from_empty[OF e] ownDefinitions_traverse(2)) simp
  from capture_order_reverses_bubble_order[OF ownDefinitions_target tr d p] b
  show ?thesis by simp
qed


subsection \<open>Dispatch under an owner\<close>

lemma processEventQueue_quiet: "quietAction processEventQueue"
  by (rule quietActionI) (simp add: processEventQueue_def quietStep_def split: option.splits)


lemma ownerReleases_dispatch:
  "effects (snd (dispatchEventForResponderEventSystem True (Suc 0) ''press''
                   (Some (Fiber 0 (EventComponent 1) [] None)) ownerReleases))
     = [Invoked OnEvent 1 (Some 1), Invoked OnRootEvent 2 None]"
  by (simp add: ownerReleases_def releasingResponder_def rootListeningResponder_def scenario_defs
      dispatchEventForResponderEventSystem_def processEventQueue_def createEventQueue_def
      endCycle_def rootEventTypesSetOf_def ensureRootEventComponentInstances_def
      setRootEventTypes_def addToRootEventComponentInstances_def
      releaseOwnership_def validateResponderContext_def triggerOwnershipListeners_def
      discardResult_def)

text \<open>
  C1, as stated, fails in the root phase: the instances of the root phase are filtered by
  the owner of the moment the root phase starts. Instance 1 owns when a \<open>press\<close> is
  dispatched on it, and its \<open>onEvent\<close> releases the ownership; the root phase then
  finds no owner and invokes \<open>onRootEvent\<close> on instance 2, registered at the root.
\<close>

theorem owner_release_opens_root_phase:
  "currentOwner ownerReleases = Some 1 \<and>
   effectsSince ownerReleases
     (snd (dispatchEventForResponderEventSystem True (Suc 0) ''press''
             (Some (Fiber 0 (EventComponent 1) [] None)) ownerReleases))
     = [Invoked OnEvent 1 (Some 1), Invoked OnRootEvent 2 None] \<and>
   invocationsOf OnRootEvent
     (effectsSince ownerReleases
        (snd (dispatchEventForResponderEventSystem True (Suc 0) ''press''
                (Some (Fiber 0 (EventComponent 1) [] None)) ownerReleases))) = [2]"
proof -
  have e: "effects ownerReleases = []"
    by (simp add: ownerReleases_def scenario_defs
      rootEventTypesSetOf_def ensureRootEventComponentInstances_def
      setRootEventTypes_def addToRootEventComponentInstances_def)
  have o: "currentOwner ownerReleases = Some 1" by (simp add: ownerReleases_def)
  show ?thesis
    by (simp only: effectsSince_from_empty[OF e] ownerReleases_dispatch o) simp
qed

text \<open>
  C1, amended. Let instance \<open>X\<close> be the owner when an event is dispatched. Then
  \<open>onEventCapture\<close> and \<open>onEvent\<close> are invoked on no instance but \<open>X\<close>:
  the target instances are collected under the owner's filter before any callback runs.
  If moreover \<open>X\<close> is the owner at every invocation of a phase callback that the
  dispatch makes (no callback has released the ownership or handed it on), every phase
  callback of the dispatch, \<open>onRootEvent\<close> included, is invoked on \<open>X\<close>. This holds
  whatever the event type, the target fiber, the target event types of the other
  instances and their registrations at the root, and whether or not a callback throws.
\<close>

theorem dispatch_reaches_only_the_owner:
  assumes "currentOwner s = Some X"
    and "dispatchEventForResponderEventSystem enableEventAPI depth topLevelType targetFiber s
           = (res, s')"
  shows "set (invocationsOf OnEventCapture (effectsSince s s')) \<subseteq> {X} \<and>
         set (invocationsOf OnEvent (effectsSince s s')) \<subseteq> {X} \<and>
         (ownedBy X (effectsSince s s') \<longrightarrow> onlyOn X (effectsSince s s'))"
proof (cases enableEventAPI)
  case False
  with assms(2) have "s' = s" by (simp add: dispatchEventForResponderEventSystem_def)
  then show ?thesis by (simp add: effectsSince_self onlyOn_Nil)
next
  case True
  let ?sq = "s\<lparr>currentEventQueue := Some createEventQueue\<rparr>"
  obtain insts s0 where gt: "getTargetEventResponderInstances topLevelType targetFiber ?sq = (insts, s0)"
    by (cases "getTargetEventResponderInstances topLevelType targetFiber ?sq")
  obtain rt st where tr: "traverseAndHandleEventResponderInstances (invoke depth) topLevelType
                            targetFiber ?sq = (rt, st)"
    by (cases "traverseAndHandleEventResponderInstances (invoke depth) topLevelType targetFiber ?sq")
  note t = traverse_trace[OF quiet_invoke gt tr, of X]
  have effq: "effects ?sq = effects s" by simp
  have sinceq: "\<And>u. effectsSince s u = effectsSince ?sq u" by (simp add: effectsSince_def)
  from t have ext: "extendsEffects ?sq st" by simp
  have own: "ownedBy X (effectsSince ?sq st) \<Longrightarrow> onlyOn X (effectsSince ?sq st)"
    using t assms(1) by simp
  have "set insts \<subseteq> {X}"
    using getTargetEventResponderInstances_owner[of ?sq X topLevelType targetFiber] gt assms(1)
    by simp
  moreover from t
  have "set (invocationsOf OnEventCapture (effectsSince ?sq st)) \<subseteq> set insts"
       "set (invocationsOf OnEvent (effectsSince ?sq st)) \<subseteq> set insts"
    by blast+
  ultimately have sub: "set (invocationsOf OnEventCapture (effectsSince ?sq st)) \<subseteq> {X}"
                   "set (invocationsOf OnEvent (effectsSince ?sq st)) \<subseteq> {X}"
    by blast+
  show ?thesis
  proof (cases rt)
    case (Inl e)
    with assms(2) True tr have "s' = endCycle st"
      by (auto simp: dispatchEventForResponderEventSystem_def tryFinally_def andThen_def)
    then have "effectsSince s s' = effectsSince ?sq st"
      by (simp add: effectsSince_def endCycle_def)
    with own sub show ?thesis by simp
  next
    case (Inr u)
    obtain rp sp where pq: "processEventQueue st = (rp, sp)" by (cases "processEventQueue st")
    from quietActionD[OF processEventQueue_quiet, of st] pq
    have q: "quietStep st sp" by simp
    then have ext2: "extendsEffects st sp" and np: "\<forall>e \<in> set (effectsSince st sp). \<not> isPhaseEffect e"
      by (simp_all add: quietStep_iff)
    from assms(2) True tr Inr pq have "s' = endCycle sp"
      by (auto simp: dispatchEventForResponderEventSystem_def tryFinally_def andThen_def)
    then have "effectsSince s s' = effectsSince ?sq sp"
      by (simp add: effectsSince_def endCycle_def)
    also have "\<dots> = effectsSince ?sq st @ effectsSince st sp"
      using ext ext2 by (rule effectsSince_trans(2))
    finally have since: "effectsSince s s' = effectsSince ?sq st @ effectsSince st sp" .
    have flush: "invocationsOf OnEventCapture (effectsSince st sp) = []"
                "invocationsOf OnEvent (effectsSince st sp) = []"
      using np by (simp_all add: invocationsOf_quiet)
    have "onlyOn X (effectsSince s s')" if "ownedBy X (effectsSince s s')"
    proof -
      from that have "ownedBy X (effectsSince ?sq st)" by (simp add: since ownedBy_append)
      then have "onlyOn X (effectsSince ?sq st)" by (rule own)
      moreover have "onlyOn X (effectsSince st sp)" using np by (rule onlyOn_quiet)
      ultimately show ?thesis by (simp add: since onlyOn_append)
    qed
    with sub flush show ?thesis by (simp add: since invocationsOf_append)
  qed
qed

lemma ownedByTwo_dispatch:
  "effects (snd (dispatchEventForResponderEventSystem True (Suc 0) ''press''
                   (Some nestedFiber) ownedByTwo))
     = [Invoked OnEventCapture 2 (Some 2), Invoked OnEvent 2 (Some 2),
        Invoked OnRootEvent 2 (Some 2)]"
  by (simp add: ownedByTwo_def ownDefinitions_def scenario_defs
      dispatchEventForResponderEventSystem_def processEventQueue_def createEventQueue_def
      endCycle_def rootEventTypesSetOf_def ensureRootEventComponentInstances_def
      setRootEventTypes_def addToRootEventComponentInstances_def)

lemma ownedByTwo_registered:
  "rootEventTypesToEventComponentInstances ownedByTwo ''press'' = Some [1, 2]"
  by (simp add: ownedByTwo_def ownDefinitions_def scenario_defs
      rootEventTypesSetOf_def ensureRootEventComponentInstances_def
      setRootEventTypes_def addToRootEventComponentInstances_def)

theorem dispatch_reaches_only_the_owner_witness:
  "currentOwner ownedByTwo = Some 2 \<and>
   rootEventTypesToEventComponentInstances ownedByTwo ''press'' = Some [1, 2] \<and>
   effectsSince ownedByTwo
     (snd (dispatchEventForResponderEventSystem True (Suc 0) ''press''
             (Some nestedFiber) ownedByTwo))
     = [Invoked OnEventCapture 2 (Some 2), Invoked OnEvent 2 (Some 2),
        Invoked OnRootEvent 2 (Some 2)] \<and>
   onlyOn 2
     (effectsSince ownedByTwo
        (snd (dispatchEventForResponderEventSystem True (Suc 0) ''press''
                (Some nestedFiber) ownedByTwo)))"
proof -
  let ?d = "dispatchEventForResponderEventSystem True (Suc 0) ''press''
             (Some nestedFiber) ownedByTwo"
  have o: "currentOwner ownedByTwo = Some 2" by (simp add: ownedByTwo_def)
  have e: "effects ownedByTwo = []"
    by (simp add: ownedByTwo_def ownDefinitions_def scenario_defs
      rootEventTypesSetOf_def ensureRootEventComponentInstances_def
      setRootEventTypes_def addToRootEventComponentInstances_def)
  have since: "effectsSince ownedByTwo (snd ?d)
     = [Invoked OnEventCapture 2 (Some 2), Invoked OnEvent 2 (Some 2),
        Invoked OnRootEvent 2 (Some 2)]"
    by (simp only: effectsSince_from_empty[OF e] ownedByTwo_dispatch)
  have ob: "ownedBy 2 (effectsSince ownedByTwo (snd ?d))"
    unfolding since by (simp add: ownedBy_def)
  have d: "?d = (fst ?d, snd ?d)" by simp
  from dispatch_reaches_only_the_owner[OF o d] ob
  have "onlyOn 2 (effectsSince ownedByTwo (snd ?d))" by blast
  with o ownedByTwo_registered since show ?thesis by blast
qed

subsection \<open>Timers\<close>

lemma setTimeout_new_group:
  assumes "currentEventQueue s \<noteq> None" and "currentInstance s = Some i"
    and "timersForDelay s delay = None"
  shows "setTimeout f delay s =
     (Inr (nextSymbol s),
      s\<lparr>currentTimers := Some ((case currentTimers s of None \<Rightarrow> Map.empty | Some m \<Rightarrow> m)
                                  (delay \<mapsto> nextTimeoutRef s)),
        nextSymbol := Suc (nextSymbol s),
        nextTimeoutRef := Suc (nextTimeoutRef s),
        nextTimeoutID := Suc (nextTimeoutID s),
        effects := effects s @ [HostSetTimeout (nextTimeoutID s) delay (nextTimeoutRef s)],
        timeoutObjects := (timeoutObjects s)
          (nextTimeoutRef s := \<lparr>timeout_id = nextTimeoutID s,
             timers = [(nextSymbol s, \<lparr>timer_instance = i, timer_func = f,
                                        timer_id = nextSymbol s\<rparr>)]\<rparr>),
        activeTimeouts := (activeTimeouts s)(nextSymbol s \<mapsto> nextTimeoutRef s)\<rparr>)"
  using assms
  by (simp add: setTimeout_def andThen_def validateResponderContext_def Let_def
      hostSetTimeout_def timersForDelay_def split: option.splits)

lemma setTimeout_existing_group:
  assumes "currentEventQueue s \<noteq> None" and "currentInstance s = Some i"
    and "timersForDelay s delay = Some r"
  shows "setTimeout g delay s =
     (Inr (nextSymbol s),
      s\<lparr>nextSymbol := Suc (nextSymbol s),
        timeoutObjects := (timeoutObjects s)
          (r := (timeoutObjects s r)\<lparr>timers :=
             mapSet (nextSymbol s) \<lparr>timer_instance = i, timer_func = g, timer_id = nextSymbol s\<rparr>
               (timers (timeoutObjects s r))\<rparr>),
        activeTimeouts := (activeTimeouts s)(nextSymbol s \<mapsto> r)\<rparr>)"
proof -
  from assms(3) obtain m where m: "currentTimers s = Some m" "m delay = Some r"
    by (auto simp: timersForDelay_def split: option.splits)
  have "s\<lparr>currentTimers := Some m\<rparr> = s" using m(1) by simp
  then show ?thesis using assms(1,2) m
    by (simp add: setTimeout_def andThen_def validateResponderContext_def Let_def)
qed

lemma clearTimeout_found:
  assumes "currentEventQueue s \<noteq> None" and "currentInstance s = Some i"
    and "activeTimeouts s timerId = Some r"
  shows "clearTimeout timerId s =
     (Inr (),
      if mapDelete timerId (timers (timeoutObjects s r)) = []
      then s\<lparr>timeoutObjects := (timeoutObjects s)(r := (timeoutObjects s r)\<lparr>timers := []\<rparr>),
             effects := effects s @ [HostClearTimeout (timeout_id (timeoutObjects s r))]\<rparr>
      else s\<lparr>timeoutObjects := (timeoutObjects s)
                (r := (timeoutObjects s r)\<lparr>timers :=
                   mapDelete timerId (timers (timeoutObjects s r))\<rparr>)\<rparr>)"
  using assms
  by (simp add: clearTimeout_def andThen_def validateResponderContext_def Let_def
      hostClearTimeout_def)

lemma clearTimeout_gone:
  assumes "currentEventQueue s \<noteq> None" and "currentInstance s = Some i"
    and "activeTimeouts s timerId = None"
  shows "clearTimeout timerId s = (Inr (), s)"
  using assms
  by (simp add: clearTimeout_def andThen_def validateResponderContext_def)
lemma processTimers_ends_cycle: "currentTimers (snd (processTimers depth r s)) = None"
  by (simp add: processTimers_def tryFinally_def Let_def endCycle_def split: prod.splits)

lemma dispatch_ends_cycle:
  "currentTimers (snd (dispatchEventForResponderEventSystem True depth ty fiber s)) = None"
  by (simp add: dispatchEventForResponderEventSystem_def tryFinally_def endCycle_def
      split: prod.splits)


text \<open>
  When the last timer of a group is cancelled the group has no timer left, but the map of
  the current cycle still has it for its delay (and the registry of active timeouts still
  has it for both tokens).
\<close>

theorem cancelled_group_stays_in_delay_map:
  "timers (timeoutObjects bothCancelled 0) = [] \<and>
   timersForDelay bothCancelled 10 = Some 0 \<and>
   activeTimeouts bothCancelled 0 = Some 0 \<and>
   activeTimeouts bothCancelled 1 = Some 0"
  by (simp add: bothCancelled_def inCycle_def idleEngine_def initialEngine_def
      timersForDelay_def setTimeout_def clearTimeout_def andThen_def
      validateResponderContext_def Let_def hostSetTimeout_def hostClearTimeout_def
      mapDelete_def createEventQueue_def)

text \<open>
  Inside a cycle in which the delay has no group yet, scheduling two timers with that
  delay asks the host for one timer; both tokens lead to the one group, which holds both
  timers. Cancelling the first removes its timer from the group and cancels nothing at
  the host: the second timer and the host timer stay. Cancelling the second, the last of
  the group, cancels the host timer. The map from delays to groups is dropped as a whole
  when a cycle ends, that of a dispatch and that of a firing group.
\<close>

theorem timers_of_one_delay_share_a_host_timer:
  assumes "currentEventQueue s \<noteq> None" and "currentInstance s = Some i"
    and "timersForDelay s delay = None"
  shows "(let t1 = nextSymbol s; t2 = Suc (nextSymbol s);
             r = nextTimeoutRef s; h = nextTimeoutID s;
             timer1 = \<lparr>timer_instance = i, timer_func = f, timer_id = t1\<rparr>;
             timer2 = \<lparr>timer_instance = i, timer_func = g, timer_id = t2\<rparr>;
             s1 = snd (setTimeout f delay s);
             s2 = snd (setTimeout g delay s1);
             s3 = snd (clearTimeout t1 s2);
             s4 = snd (clearTimeout t2 s3)
         in fst (setTimeout f delay s) = Inr t1 \<and>
            fst (setTimeout g delay s1) = Inr t2 \<and>
            effectsSince s s2 = [HostSetTimeout h delay r] \<and>
            activeTimeouts s2 t1 = Some r \<and> activeTimeouts s2 t2 = Some r \<and>
            timeoutObjects s2 r = \<lparr>timeout_id = h, timers = [(t1, timer1), (t2, timer2)]\<rparr> \<and>
            fst (clearTimeout t1 s2) = Inr () \<and>
            timeoutObjects s3 r = \<lparr>timeout_id = h, timers = [(t2, timer2)]\<rparr> \<and>
            effectsSince s s3 = [HostSetTimeout h delay r] \<and>
            fst (clearTimeout t2 s3) = Inr () \<and>
            timeoutObjects s4 r = \<lparr>timeout_id = h, timers = []\<rparr> \<and>
            effectsSince s s4 = [HostSetTimeout h delay r, HostClearTimeout h]) \<and>
         currentTimers (snd (processTimers depth r' s')) = None \<and>
         currentTimers (snd (dispatchEventForResponderEventSystem True depth topLevelType
                               targetFiber s')) = None"
proof -
  let ?t1 = "nextSymbol s" and ?t2 = "Suc (nextSymbol s)"
  let ?r = "nextTimeoutRef s" and ?h = "nextTimeoutID s"
  let ?timer1 = "\<lparr>timer_instance = i, timer_func = f, timer_id = ?t1\<rparr>"
  let ?timer2 = "\<lparr>timer_instance = i, timer_func = g, timer_id = ?t2\<rparr>"
  let ?s1 = "snd (setTimeout f delay s)"
  let ?s2 = "snd (setTimeout g delay ?s1)"
  let ?s3 = "snd (clearTimeout ?t1 ?s2)"
  let ?s4 = "snd (clearTimeout ?t2 ?s3)"
  note e1 = setTimeout_new_group[OF assms, of f]
  have r1: "fst (setTimeout f delay s) = Inr ?t1" by (simp add: e1)
  have q1: "currentEventQueue ?s1 \<noteq> None" using assms(1) by (simp add: e1)
  have i1: "currentInstance ?s1 = Some i" using assms(2) by (simp add: e1)
  have d1: "timersForDelay ?s1 delay = Some ?r" by (simp add: e1 timersForDelay_def)
  have n1: "nextSymbol ?s1 = ?t2" by (simp add: e1)
  have o1: "timeoutObjects ?s1 ?r = \<lparr>timeout_id = ?h, timers = [(?t1, ?timer1)]\<rparr>"
    by (simp add: e1)
  have a1: "activeTimeouts ?s1 ?t1 = Some ?r" by (simp add: e1)
  have f1: "effects ?s1 = effects s @ [HostSetTimeout ?h delay ?r]" by (simp add: e1)
  note e2 = setTimeout_existing_group[OF q1 i1 d1, of g]
  have r2: "fst (setTimeout g delay ?s1) = Inr ?t2" by (simp add: e2 n1)
  have q2: "currentEventQueue ?s2 \<noteq> None" using q1 by (simp add: e2)
  have i2: "currentInstance ?s2 = Some i" using i1 by (simp add: e2)
  have o2: "timeoutObjects ?s2 ?r = \<lparr>timeout_id = ?h, timers = [(?t1, ?timer1), (?t2, ?timer2)]\<rparr>"
    by (simp add: e2 n1 o1)
  have a2: "activeTimeouts ?s2 ?t1 = Some ?r" "activeTimeouts ?s2 ?t2 = Some ?r"
    using a1 by (simp_all add: e2 n1)
  have f2: "effects ?s2 = effects s @ [HostSetTimeout ?h delay ?r]" using f1 by (simp add: e2)
  note e3 = clearTimeout_found[OF q2 i2 a2(1)]
  have m3: "mapDelete ?t1 (timers (timeoutObjects ?s2 ?r)) = [(?t2, ?timer2)]"
    by (simp add: o2 mapDelete_def)
  have r3: "fst (clearTimeout ?t1 ?s2) = Inr ()" by (simp add: e3)
  have q3: "currentEventQueue ?s3 \<noteq> None" using q2 by (simp add: e3 m3)
  have i3: "currentInstance ?s3 = Some i" using i2 by (simp add: e3 m3)
  have m3': "mapDelete ?t1 [(?t1, ?timer1), (?t2, ?timer2)] = [(?t2, ?timer2)]"
    by (simp add: mapDelete_def)
  have o3: "timeoutObjects ?s3 ?r = \<lparr>timeout_id = ?h, timers = [(?t2, ?timer2)]\<rparr>"
    by (simp add: e3 m3' o2)
  have a3: "activeTimeouts ?s3 ?t2 = Some ?r" using a2(2) by (simp add: e3 m3)
  have f3: "effects ?s3 = effects s @ [HostSetTimeout ?h delay ?r]" using f2 by (simp add: e3 m3)
  note e4 = clearTimeout_found[OF q3 i3 a3]
  have m4: "mapDelete ?t2 (timers (timeoutObjects ?s3 ?r)) = []"
    by (simp add: o3 mapDelete_def)
  have r4: "fst (clearTimeout ?t2 ?s3) = Inr ()" by (simp add: e4)
  have m4': "mapDelete ?t2 [(?t2, ?timer2)] = []"
    by (simp add: mapDelete_def)
  have o4: "timeoutObjects ?s4 ?r = \<lparr>timeout_id = ?h, timers = []\<rparr>"
    by (simp add: e4 m4' o3)
  have f4: "effects ?s4 = effects s @ [HostSetTimeout ?h delay ?r, HostClearTimeout ?h]"
    using f3 by (simp add: e4 m4' o3)
  have "effectsSince s ?s2 = [HostSetTimeout ?h delay ?r]"
       "effectsSince s ?s3 = [HostSetTimeout ?h delay ?r]"
       "effectsSince s ?s4 = [HostSetTimeout ?h delay ?r, HostClearTimeout ?h]"
    by (simp_all add: effectsSince_def f2 f3 f4)
  with r1 r2 a2 o2 r3 o3 r4 o4 show ?thesis
    by (simp only: Let_def processTimers_ends_cycle dispatch_ends_cycle simp_thms)
qed

lemma inCycle_facts:
  "currentEventQueue inCycle \<noteq> None" "currentInstance inCycle = Some 1"
  "timersForDelay inCycle 10 = None"
  "nextSymbol inCycle = 0" "nextTimeoutRef inCycle = 0" "nextTimeoutID inCycle = 0"
  by (simp_all add: inCycle_def idleEngine_def initialEngine_def timersForDelay_def)

theorem timers_of_one_delay_share_a_host_timer_witness:
  "timersForDelay inCycle 10 = None \<and>
   effectsSince inCycle (snd (setTimeout [] 10 (snd (setTimeout [] 10 inCycle))))
     = [HostSetTimeout 0 10 0] \<and>
   timers (timeoutObjects
             (snd (clearTimeout 0 (snd (setTimeout [] 10 (snd (setTimeout [] 10 inCycle)))))) 0)
     = [(1, \<lparr>timer_instance = 1, timer_func = [], timer_id = 1\<rparr>)] \<and>
   effectsSince inCycle bothCancelled = [HostSetTimeout 0 10 0, HostClearTimeout 0]"
  using timers_of_one_delay_share_a_host_timer[OF inCycle_facts(1,2,3), of "[]" "[]"]
  by (simp add: Let_def inCycle_facts(3,4,5,6) bothCancelled_def)

text \<open>
  C6. A group whose last timer has been cancelled is not removed from the map of the
  cycle: \<open>clearTimeout\<close> cancels the host timer of the group and leaves the group
  where \<open>setTimeout\<close> looks for the group of a delay. A \<open>press\<close> whose
  \<open>onEvent\<close> schedules a timer of the delay 10, cancels it and schedules a second
  timer of the delay 10 asks the host for one timer and has it cancelled: the second
  timer is put into the group of the cancelled host timer, no host timer is asked for it,
  and nothing is left to fire it.
\<close>

theorem timer_joins_cancelled_group:
  "fst (dispatchEventForResponderEventSystem True (Suc 0) ''press''
          (Some (Fiber 0 (EventComponent 1) [] None)) rescheduling) = Inr () \<and>
   effects (snd (dispatchEventForResponderEventSystem True (Suc 0) ''press''
                   (Some (Fiber 0 (EventComponent 1) [] None)) rescheduling))
     = [Invoked OnEvent 1 None, HostSetTimeout 0 10 0, HostClearTimeout 0] \<and>
   timers (timeoutObjects
             (snd (dispatchEventForResponderEventSystem True (Suc 0) ''press''
                     (Some (Fiber 0 (EventComponent 1) [] None)) rescheduling)) 0)
     = [(1, \<lparr>timer_instance = 1, timer_func = [HasOwnership], timer_id = 1\<rparr>)] \<and>
   activeTimeouts
     (snd (dispatchEventForResponderEventSystem True (Suc 0) ''press''
             (Some (Fiber 0 (EventComponent 1) [] None)) rescheduling)) 1 = Some 0"
  by (simp add: rescheduling_def reschedulingResponder_def scenario_defs
      dispatchEventForResponderEventSystem_def processEventQueue_def createEventQueue_def
      endCycle_def setTimeout_def clearTimeout_def validateResponderContext_def
      hostSetTimeout_def hostClearTimeout_def mapDelete_def discardResult_def)

lemma selfCancelling_eq:
  "selfCancelling =
     idleEngine\<lparr>currentTimers := None,
       nextSymbol := 1, nextTimeoutRef := 1, nextTimeoutID := 1,
       effects := [HostSetTimeout 0 10 0],
       timeoutObjects := (timeoutObjects idleEngine)
          (0 := \<lparr>timeout_id = 0,
             timers = [(0, \<lparr>timer_instance = 1, timer_func = [ClearTimeout 0], timer_id = 0\<rparr>)]\<rparr>),
       activeTimeouts := [0 \<mapsto> 0]\<rparr>"
  by (simp add: selfCancelling_def inCycle_def idleEngine_def initialEngine_def
      setTimeout_def andThen_def validateResponderContext_def Let_def hostSetTimeout_def
      endCycle_def createEventQueue_def)

text \<open>
  C5, as stated, fails: the callback of a firing timer runs while the registry of active
  timeouts still has the timer's token. A callback that cancels its own token finds its
  group through the registry, empties the group's map and has the host timer cancelled;
  had the entry been gone, \<open>clearTimeout\<close> would have done nothing
  (\<open>clearTimeout_gone\<close>).
\<close>

theorem fired_timer_sees_its_entry:
  "activeTimeouts selfCancelling 0 = Some 0 \<and>
   effects selfCancelling = [HostSetTimeout 0 10 0] \<and>
   effects (snd (processTimers (Suc 0) 0 selfCancelling))
     = [HostSetTimeout 0 10 0, Invoked TimerFunc 1 None, HostClearTimeout 0] \<and>
   timers (timeoutObjects (snd (processTimers (Suc 0) 0 selfCancelling)) 0) = []"
  by (simp add: selfCancelling_eq idleEngine_def initialEngine_def
        processTimers_def Let_def andThen_def tryFinally_def invokeCallback_def
        clearTimeout_def validateResponderContext_def hostClearTimeout_def mapDelete_def
        processEventQueue_def createEventQueue_def endCycle_def)

text \<open>
  C5, amended. When a group fires, the callback of each timer is invoked on the engine
  with the registry of active timeouts as it was, and the timer's token is removed from
  the registry when the callback has returned or thrown; then the next timer is
  processed, or the exception propagates. So a callback that cancels its own token finds
  the entry: with a group of that one timer, the cancellation empties the group and
  cancels the host timer, and the token is out of the registry when \<open>processTimers\<close>
  returns.
\<close>

theorem fired_timer_entry_removed_after_callback:
  "processTimersLoop run (t # rest) s =
     (case invokeCallback run TimerFunc (timer_instance t) (timer_func t)
             (s\<lparr>currentInstance := Some (timer_instance t)\<rparr>) of
        (Inl e, s1) \<Rightarrow> (Inl e, s1\<lparr>activeTimeouts := (activeTimeouts s1)(timer_id t := None)\<rparr>)
      | (Inr u, s1) \<Rightarrow>
          processTimersLoop run rest
            (s1\<lparr>activeTimeouts := (activeTimeouts s1)(timer_id t := None)\<rparr>)) \<and>
   (timers (timeoutObjects s r) = [(tok, t)] \<and> timer_id t = tok \<and>
    timer_func t = [ClearTimeout tok] \<and> activeTimeouts s tok = Some r \<longrightarrow>
      fst (processTimers (Suc depth) r s) = Inr () \<and>
      effectsSince s (snd (processTimers (Suc depth) r s))
        = [Invoked TimerFunc (timer_instance t) (currentOwner s),
           HostClearTimeout (timeout_id (timeoutObjects s r))] \<and>
      timers (timeoutObjects (snd (processTimers (Suc depth) r s)) r) = [] \<and>
      activeTimeouts (snd (processTimers (Suc depth) r s)) tok = None)"
proof (rule conjI)
  show "processTimersLoop run (t # rest) s =
     (case invokeCallback run TimerFunc (timer_instance t) (timer_func t)
             (s\<lparr>currentInstance := Some (timer_instance t)\<rparr>) of
        (Inl e, s1) \<Rightarrow> (Inl e, s1\<lparr>activeTimeouts := (activeTimeouts s1)(timer_id t := None)\<rparr>)
      | (Inr u, s1) \<Rightarrow>
          processTimersLoop run rest
            (s1\<lparr>activeTimeouts := (activeTimeouts s1)(timer_id t := None)\<rparr>))"
    by (simp add: andThen_def tryFinally_def split: prod.splits sum.splits)
next
  show "timers (timeoutObjects s r) = [(tok, t)] \<and> timer_id t = tok \<and>
    timer_func t = [ClearTimeout tok] \<and> activeTimeouts s tok = Some r \<longrightarrow>
      fst (processTimers (Suc depth) r s) = Inr () \<and>
      effectsSince s (snd (processTimers (Suc depth) r s))
        = [Invoked TimerFunc (timer_instance t) (currentOwner s),
           HostClearTimeout (timeout_id (timeoutObjects s r))] \<and>
      timers (timeoutObjects (snd (processTimers (Suc depth) r s)) r) = [] \<and>
      activeTimeouts (snd (processTimers (Suc depth) r s)) tok = None"
    by (simp add: processTimers_def Let_def andThen_def tryFinally_def invokeCallback_def
        clearTimeout_def validateResponderContext_def hostClearTimeout_def mapDelete_def
        processEventQueue_def createEventQueue_def endCycle_def effectsSince_def)
qed

theorem fired_timer_entry_removed_after_callback_witness:
  "activeTimeouts selfCancelling 0 = Some 0 \<and>
   fst (processTimers (Suc 0) 0 selfCancelling) = Inr () \<and>
   timers (timeoutObjects (snd (processTimers (Suc 0) 0 selfCancelling)) 0) = [] \<and>
   activeTimeouts (snd (processTimers (Suc 0) 0 selfCancelling)) 0 = None"
proof -
  have h: "timers (timeoutObjects selfCancelling 0)
             = [(0, \<lparr>timer_instance = 1, timer_func = [ClearTimeout 0], timer_id = 0\<rparr>)] \<and>
           timer_id \<lparr>timer_instance = 1, timer_func = [ClearTimeout 0], timer_id = 0\<rparr> = 0 \<and>
           timer_func \<lparr>timer_instance = 1, timer_func = [ClearTimeout 0], timer_id = 0\<rparr>
             = [ClearTimeout 0] \<and>
           activeTimeouts selfCancelling 0 = Some 0"
    by (simp add: selfCancelling_eq)
  from fired_timer_entry_removed_after_callback[of _ "\<lparr>timer_instance = 1, timer_func = [ClearTimeout 0], timer_id = 0\<rparr>" _ selfCancelling 0 0 0] h
  show ?thesis by blast
qed


end
